theory Spec2Isabelle
  imports Main
begin

section \<open>Python strings\<close>

text \<open>
  A Python \<open>str\<close> is modelled as a \<open>string\<close>; a character stands for the code point
  of the same number, so the model covers the strings over code points 0 to 255.
  The helpers below are the \<open>str\<close> methods the crawler and \<open>urllib.parse\<close> call.
\<close>

definition TAB :: char where "TAB = CHR 0x09"
definition LF :: char where "LF = CHR 0x0A"
definition CR :: char where "CR = CHR 0x0D"

text \<open>\<open>c in s\<close>\<close>

definition contains :: "string \<Rightarrow> char \<Rightarrow> bool" where
  "contains s c = (c \<in> set s)"

text \<open>\<open>s.endswith(suffix)\<close>\<close>

definition endswith :: "string \<Rightarrow> string \<Rightarrow> bool" where
  "endswith s suf = (length suf \<le> length s \<and> drop (length s - length suf) s = suf)"

text \<open>\<open>s.split(c, 1)\<close> for a string that contains \<open>c\<close>: the text before the first
  \<open>c\<close> and the text after it.\<close>

definition split_once :: "char \<Rightarrow> string \<Rightarrow> string \<times> string" where
  "split_once c s = (takeWhile (\<lambda>x. x \<noteq> c) s, drop 1 (dropWhile (\<lambda>x. x \<noteq> c) s))"

text \<open>\<open>s.split(c)\<close>: always at least one piece.\<close>

fun split_on :: "char \<Rightarrow> string \<Rightarrow> string list" where
  "split_on c [] = [[]]"
| "split_on c (x # xs) =
     (if x = c then [] # split_on c xs
      else (case split_on c xs of [] \<Rightarrow> [[x]] | p # ps \<Rightarrow> (x # p) # ps))"

text \<open>\<open>sep.join(parts)\<close>\<close>

fun join :: "string \<Rightarrow> string list \<Rightarrow> string" where
  "join sep [] = []"
| "join sep [p] = p"
| "join sep (p # q # ps) = p @ sep @ join sep (q # ps)"

text \<open>\<open>s.rfind(c)\<close> for a string that contains \<open>c\<close>: the index of the last \<open>c\<close>.\<close>

definition rfind :: "char \<Rightarrow> string \<Rightarrow> nat" where
  "rfind c s = length s - 1 - length (takeWhile (\<lambda>x. x \<noteq> c) (rev s))"

text \<open>\<open>s.lstrip(_WHATWG_C0_CONTROL_OR_SPACE)\<close> and \<open>s.strip(...)\<close>: the characters
  0x00 to 0x20 are stripped.\<close>

definition c0_or_space :: "char \<Rightarrow> bool" where
  "c0_or_space c = ((of_char c :: nat) \<le> 32)"

definition lstrip_c0 :: "string \<Rightarrow> string" where
  "lstrip_c0 s = dropWhile c0_or_space s"

definition strip_c0 :: "string \<Rightarrow> string" where
  "strip_c0 s = rev (dropWhile c0_or_space (rev (dropWhile c0_or_space s)))"

text \<open>The loop over \<open>_UNSAFE_URL_BYTES_TO_REMOVE\<close>: every tab, carriage return and
  line feed is removed.\<close>

definition remove_unsafe :: "string \<Rightarrow> string" where
  "remove_unsafe s = filter (\<lambda>c. c \<noteq> TAB \<and> c \<noteq> CR \<and> c \<noteq> LF) s"

text \<open>\<open>c.isascii() and c.isalpha()\<close>\<close>

definition ascii_alpha :: "char \<Rightarrow> bool" where
  "ascii_alpha c =
     (let n = (of_char c :: nat) in (65 \<le> n \<and> n \<le> 90) \<or> (97 \<le> n \<and> n \<le> 122))"

text \<open>\<open>s.lower()\<close>, on the characters of \<open>scheme_chars\<close> (the only place it is called).\<close>

definition lower_char :: "char \<Rightarrow> char" where
  "lower_char c =
     (let n = (of_char c :: nat) in if 65 \<le> n \<and> n \<le> 90 then char_of (n + 32) else c)"

section \<open>The library: \<open>urllib.parse\<close>\<close>

text \<open>
  \<open>is_valid_wiki_url\<close> calls \<open>urlparse\<close> and \<open>extract_wiki_links\<close> calls
  \<open>urljoin\<close>. Both belong to the Python standard library; they are modelled here after
  \<open>Lib/urllib/parse.py\<close> of CPython 3.11, function by function. Two library checks are
  not written out:
  \<^item> \<open>_check_bracketed_host\<close> validates the text between \<open>[\<close> and \<open>]\<close> of a netloc with
    the \<open>ipaddress\<close> module. It is the parameter \<open>chk\<close> of the model (true when the check
    returns, false when it raises \<open>ValueError\<close>); every theorem holds for every \<open>chk\<close>.
  \<^item> \<open>_checknetloc\<close> raises when the NFKC form of a non-ASCII netloc contains one of
    \<open>/ ? # @ :\<close>. No code point below 256 normalises to such a character, so on the
    strings of this model it returns.
\<close>

datatype error = ValueError | ParserRejectedMarkup

definition scheme_chars :: string where
  "scheme_chars =
     ''abcdefghijklmnopqrstuvwxyzABCDEFGHIJKLMNOPQRSTUVWXYZ0123456789+-.''"

definition uses_relative :: "string list" where
  "uses_relative = ['''', ''ftp'', ''http'', ''gopher'', ''nntp'', ''imap'',
     ''wais'', ''file'', ''https'', ''shttp'', ''mms'',
     ''prospero'', ''rtsp'', ''rtsps'', ''rtspu'', ''sftp'',
     ''svn'', ''svn+ssh'', ''ws'', ''wss'']"

definition uses_netloc :: "string list" where
  "uses_netloc = ['''', ''ftp'', ''http'', ''gopher'', ''nntp'', ''telnet'',
     ''imap'', ''wais'', ''file'', ''mms'', ''https'', ''shttp'',
     ''snews'', ''prospero'', ''rtsp'', ''rtsps'', ''rtspu'', ''rsync'',
     ''svn'', ''svn+ssh'', ''sftp'', ''nfs'', ''git'', ''git+ssh'',
     ''ws'', ''wss'']"

definition uses_params :: "string list" where
  "uses_params = ['''', ''ftp'', ''hdl'', ''prospero'', ''http'', ''imap'',
     ''https'', ''shttp'', ''rtsp'', ''rtsps'', ''rtspu'', ''sip'',
     ''sips'', ''mms'', ''sftp'', ''tel'']"

text \<open>\<open>_splitnetloc(url, 2)\<close>: the netloc runs from index 2 to the first of \<open>/ ? #\<close>.\<close>

definition netloc_char :: "char \<Rightarrow> bool" where
  "netloc_char c = (c \<noteq> CHR ''/'' \<and> c \<noteq> CHR ''?'' \<and> c \<noteq> CHR ''#'')"

definition splitnetloc :: "string \<Rightarrow> string \<times> string" where
  "splitnetloc url = (takeWhile netloc_char (drop 2 url), dropWhile netloc_char (drop 2 url))"

text \<open>\<open>netloc.partition('[')[2].partition(']')[0]\<close>\<close>

definition bracketed_host :: "string \<Rightarrow> string" where
  "bracketed_host netloc =
     takeWhile (\<lambda>c. c \<noteq> CHR '']'') (drop 1 (dropWhile (\<lambda>c. c \<noteq> CHR ''['') netloc))"

text \<open>The scheme test of \<open>urlsplit\<close>: \<open>url.find(':') > 0\<close>, the first character is an
  ASCII letter, and the \<open>for ... else\<close> finds every character before the colon in
  \<open>scheme_chars\<close>.\<close>

definition has_scheme :: "string \<Rightarrow> bool" where
  "has_scheme url =
     (contains url CHR '':'' \<and> takeWhile (\<lambda>c. c \<noteq> CHR '':'') url \<noteq> [] \<and>
      ascii_alpha (hd url) \<and>
      list_all (contains scheme_chars) (takeWhile (\<lambda>c. c \<noteq> CHR '':'') url))"

text \<open>The netloc part of \<open>urlsplit\<close>, entered when the text after the scheme starts
  with \<open>//\<close>: it raises on a netloc with one kind of bracket only, and when the library
  rejects the bracketed host.\<close>

definition split_netloc_checked ::
  "(string \<Rightarrow> bool) \<Rightarrow> string \<Rightarrow> error + (string \<times> string)" where
  "split_netloc_checked chk url =
     (if take 2 url = ''//''
      then (let (netloc, rest) = splitnetloc url
            in if (contains netloc CHR ''['' \<and> \<not> contains netloc CHR '']'') \<or>
                  (contains netloc CHR '']'' \<and> \<not> contains netloc CHR ''['')
               then Inl ValueError
               else if contains netloc CHR ''['' \<and> contains netloc CHR '']'' \<and>
                       \<not> chk (bracketed_host netloc)
               then Inl ValueError
               else Inr (netloc, rest))
      else Inr ('''', url))"

text \<open>\<open>urlsplit(url, scheme)\<close> returns (scheme, netloc, path, query, fragment) or raises
  \<open>ValueError\<close>.\<close>

definition urlsplit ::
  "(string \<Rightarrow> bool) \<Rightarrow> string \<Rightarrow> string \<Rightarrow>
     error + (string \<times> string \<times> string \<times> string \<times> string)" where
  "urlsplit chk url0 scheme0 =
     (let url = remove_unsafe (lstrip_c0 url0);
          scheme = remove_unsafe (strip_c0 scheme0);
          (scheme, url) =
             (if has_scheme url
              then (map lower_char (takeWhile (\<lambda>c. c \<noteq> CHR '':'') url),
                    drop 1 (dropWhile (\<lambda>c. c \<noteq> CHR '':'') url))
              else (scheme, url))
      in case split_netloc_checked chk url of
           Inl e \<Rightarrow> Inl e
         | Inr (netloc, url) \<Rightarrow>
             (let (url, fragment) =
                    (if contains url CHR ''#'' then split_once CHR ''#'' url else (url, ''''));
                  (url, query) =
                    (if contains url CHR ''?'' then split_once CHR ''?'' url else (url, ''''))
              in Inr (scheme, netloc, url, query, fragment)))"

text \<open>\<open>_splitparams(url)\<close>, called on a path that contains \<open>;\<close>: the parameters start
  at the first \<open>;\<close> of the last path segment.\<close>

definition splitparams :: "string \<Rightarrow> string \<times> string" where
  "splitparams url =
     (if contains url CHR ''/''
      then (let k = rfind CHR ''/'' url; seg = drop k url
            in if \<not> contains seg CHR '';'' then (url, '''')
               else (take k url @ takeWhile (\<lambda>c. c \<noteq> CHR '';'') seg,
                     drop 1 (dropWhile (\<lambda>c. c \<noteq> CHR '';'') seg)))
      else split_once CHR '';'' url)"

record parse_result =
  scheme :: string
  netloc :: string
  path :: string
  params :: string
  query :: string
  fragment :: string

text \<open>\<open>urlparse(url, scheme)\<close>\<close>

definition urlparse :: "(string \<Rightarrow> bool) \<Rightarrow> string \<Rightarrow> string \<Rightarrow> error + parse_result" where
  "urlparse chk url0 scheme0 =
     (case urlsplit chk url0 scheme0 of
        Inl e \<Rightarrow> Inl e
      | Inr (sch, nl, url, qu, fr) \<Rightarrow>
          (let (url, pa) =
                 (if sch \<in> set uses_params \<and> contains url CHR '';''
                  then splitparams url else (url, ''''))
           in Inr \<lparr>scheme = sch, netloc = nl, path = url, params = pa,
                    query = qu, fragment = fr\<rparr>))"

section \<open>The crawler: URL validation\<close>

definition WIKI_BASE :: string where
  "WIKI_BASE = ''https://en.wikipedia.org''"

text \<open>
  \<open>WIKI_PATH_RE.match(s)\<close> for the pattern \<open>^/wiki/[^:#]+$\<close>. After the prefix, the
  class \<open>[^:#]\<close> (which also matches a line feed) takes at least one character; \<open>n\<close>
  is the longest run it can take. The match succeeds when, for some number \<open>k\<close> of
  characters taken, \<open>$\<close> holds: the rest is empty or is a single final line feed.
\<close>

definition not_colon_hash :: "char \<Rightarrow> bool" where
  "not_colon_hash c = (c \<noteq> CHR '':'' \<and> c \<noteq> CHR ''#'')"

definition WIKI_PATH_RE_match :: "string \<Rightarrow> bool" where
  "WIKI_PATH_RE_match s =
     (take 6 s = ''/wiki/'' \<and>
      (let rest = drop 6 s; n = length (takeWhile not_colon_hash rest)
       in list_ex (\<lambda>k. drop k rest = [] \<or> drop k rest = [LF]) [1..<Suc n]))"

text \<open>
  \<open>is_valid_wiki_url(url)\<close>. The Python expression \<open>a and b and c\<close> returns \<open>False\<close>,
  \<open>None\<close> or a match object; the model returns its truth value, which is what the
  caller tests. A \<open>ValueError\<close> of \<open>urlparse\<close> is not caught and leaves the function.
\<close>

definition is_valid_wiki_url :: "(string \<Rightarrow> bool) \<Rightarrow> string \<Rightarrow> error + bool" where
  "is_valid_wiki_url chk url =
     (case urlparse chk url '''' of
        Inl e \<Rightarrow> Inl e
      | Inr parsed \<Rightarrow>
          Inr (scheme parsed \<in> set [''http'', ''https''] \<and>
               endswith (netloc parsed) ''wikipedia.org'' \<and>
               WIKI_PATH_RE_match (path parsed)))"

section \<open>The library: \<open>urljoin\<close>\<close>

text \<open>\<open>urlunsplit((scheme, netloc, url, query, fragment))\<close>\<close>

definition urlunsplit :: "string \<times> string \<times> string \<times> string \<times> string \<Rightarrow> string" where
  "urlunsplit c =
     (case c of (sch, nl, url, qu, fr) \<Rightarrow>
        (let url = (if nl \<noteq> [] \<or> (sch \<noteq> [] \<and> sch \<in> set uses_netloc) \<or> take 2 url = ''//''
                    then ''//'' @ nl @ (if url \<noteq> [] \<and> take 1 url \<noteq> ''/'' then ''/'' @ url else url)
                    else url);
             url = (if sch \<noteq> [] then sch @ '':'' @ url else url);
             url = (if qu \<noteq> [] then url @ ''?'' @ qu else url);
             url = (if fr \<noteq> [] then url @ ''#'' @ fr else url)
         in url))"

text \<open>\<open>urlunparse(components)\<close>\<close>

definition urlunparse :: "parse_result \<Rightarrow> string" where
  "urlunparse p =
     urlunsplit (scheme p, netloc p,
                 (if params p \<noteq> [] then path p @ '';'' @ params p else path p),
                 query p, fragment p)"

text \<open>The loop of \<open>urljoin\<close> over the path segments: \<open>..\<close> pops the resolved path (a pop
  from the empty list raises \<open>IndexError\<close>, which the loop ignores), \<open>.\<close> is skipped,
  any other segment is appended.\<close>

fun resolve_segments :: "string list \<Rightarrow> string list \<Rightarrow> string list" where
  "resolve_segments [] resolved_path = resolved_path"
| "resolve_segments (seg # segments) resolved_path =
     (if seg = ''..'' then resolve_segments segments (butlast resolved_path)
      else if seg = ''.'' then resolve_segments segments resolved_path
      else resolve_segments segments (resolved_path @ [seg]))"

text \<open>\<open>segments[1:-1] = filter(None, segments[1:-1])\<close>: the empty segments strictly
  between the first and the last are dropped.\<close>

definition filter_inner :: "string list \<Rightarrow> string list" where
  "filter_inner segments =
     (if 2 \<le> length segments
      then hd segments # filter (\<lambda>s. s \<noteq> []) (butlast (tl segments)) @ [last segments]
      else segments)"

text \<open>\<open>urljoin(base, url)\<close>\<close>

definition urljoin :: "(string \<Rightarrow> bool) \<Rightarrow> string \<Rightarrow> string \<Rightarrow> error + string" where
  "urljoin chk base url =
     (if base = [] then Inr url
      else if url = [] then Inr base
      else case urlparse chk base '''' of
        Inl e \<Rightarrow> Inl e
      | Inr b \<Rightarrow>
         (case urlparse chk url (scheme b) of
            Inl e \<Rightarrow> Inl e
          | Inr u \<Rightarrow>
             if scheme u \<noteq> scheme b \<or> scheme u \<notin> set uses_relative then Inr url
             else if scheme u \<in> set uses_netloc \<and> netloc u \<noteq> [] then Inr (urlunparse u)
             else
               (let nl = (if scheme u \<in> set uses_netloc then netloc b else netloc u)
                in if path u = [] \<and> params u = []
                   then Inr (urlunparse (u\<lparr>netloc := nl, path := path b, params := params b,
                               query := (if query u = [] then query b else query u)\<rparr>))
                   else
                     (let base_parts = split_on CHR ''/'' (path b);
                          base_parts = (if last base_parts \<noteq> [] then butlast base_parts
                                        else base_parts);
                          segments = (if take 1 (path u) = ''/'' then split_on CHR ''/'' (path u)
                                      else filter_inner (base_parts @ split_on CHR ''/'' (path u)));
                          resolved_path = resolve_segments segments [];
                          resolved_path = (if last segments \<in> set [''.'', ''..'']
                                           then resolved_path @ [''''] else resolved_path);
                          joined = join ''/'' resolved_path
                      in Inr (urlunparse (u\<lparr>netloc := nl,
                                path := (if joined = [] then ''/'' else joined)\<rparr>))))))"

section \<open>The crawler: link extraction\<close>

text \<open>
  \<open>extract_wiki_links(html)\<close>. The HTML parser is a collaborator outside the
  repository: \<open>select_a_href html\<close> stands for the \<open>href\<close> values of
  \<open>BeautifulSoup(html, "html.parser").select("a[href]")\<close> in document order, and is
  \<open>None\<close> when the parser rejects the markup and raises \<open>ParserRejectedMarkup\<close> (as
  it does on an unknown marked section such as \<open><![foo bar]>\<close>). The function does not
  catch the exception. \<open>extract_loop\<close> is the \<open>for\<close> loop with its two variables
  \<open>links\<close> and \<open>seen\<close>; a \<open>ValueError\<close> of \<open>urljoin\<close> would leave the function too.
\<close>

type_synonym parser = "string \<Rightarrow> string list option"

fun extract_loop ::
  "(string \<Rightarrow> bool) \<Rightarrow> string list \<Rightarrow> string list \<Rightarrow> string set \<Rightarrow> error + string list" where
  "extract_loop chk [] links seen = Inr links"
| "extract_loop chk (href # hrefs) links seen =
     (if WIKI_PATH_RE_match href \<and> href \<notin> seen
      then (case urljoin chk WIKI_BASE href of
              Inl e \<Rightarrow> Inl e
            | Inr link \<Rightarrow>
                if length (links @ [link]) = 10 then Inr (links @ [link])
                else extract_loop chk hrefs (links @ [link]) (insert href seen))
      else if length links = 10 then Inr links
      else extract_loop chk hrefs links seen)"

definition extract_wiki_links ::
  "(string \<Rightarrow> bool) \<Rightarrow> parser \<Rightarrow> string \<Rightarrow> error + string list" where
  "extract_wiki_links chk select_a_href html =
     (case select_a_href html of
        None \<Rightarrow> Inl ParserRejectedMarkup
      | Some hrefs \<Rightarrow> extract_loop chk hrefs [] {})"

section \<open>The library: \<open>requests\<close>\<close>

text \<open>
  What \<open>crawl\<close> uses of a response: the status code, the reason phrase, the URL of the
  response and the decoded body (\<open>resp.text\<close>).
\<close>

record response =
  resp_status_code :: int
  resp_reason :: string
  resp_url :: string
  resp_text :: string

text \<open>\<open>str(n)\<close> for a number that is not negative.\<close>

fun str_nat :: "nat \<Rightarrow> string" where
  "str_nat n =
     (if n < 10 then [char_of (48 + n)]
      else str_nat (n div 10) @ [char_of (48 + n mod 10)])"

text \<open>\<open>resp.raise_for_status()\<close>: it raises \<open>HTTPError\<close>, a \<open>RequestException\<close>, for
  the status codes 400 to 599 and returns for every other code. The result is the
  message of the exception, or nothing.\<close>

definition raise_for_status :: "response \<Rightarrow> string option" where
  "raise_for_status resp =
     (if 400 \<le> resp_status_code resp \<and> resp_status_code resp < 500
      then Some (str_nat (nat (resp_status_code resp)) @ '' Client Error: '' @ resp_reason resp @
                 '' for url: '' @ resp_url resp)
      else if 500 \<le> resp_status_code resp \<and> resp_status_code resp < 600
      then Some (str_nat (nat (resp_status_code resp)) @ '' Server Error: '' @ resp_reason resp @
                 '' for url: '' @ resp_url resp)
      else None)"

text \<open>
  The fetcher \<open>requests.get(url, timeout=10)\<close>: it returns a response, or the message of
  the \<open>RequestException\<close> it raises (a network error or a timeout), together with the
  new network. The network has any type \<open>'w\<close>. The call is taken to return; exceptions
  of other classes are outside the model.
\<close>

type_synonym 'w fetcher = "'w \<Rightarrow> string \<Rightarrow> (string + response) \<times> 'w"

text \<open>The \<open>try\<close> block of \<open>crawl\<close>: the response, or the message of the
  \<open>RequestException\<close> that \<open>requests.get\<close> or \<open>raise_for_status\<close> raised and the
  \<open>except\<close> clause caught.\<close>

definition try_fetch :: "'w fetcher \<Rightarrow> 'w \<Rightarrow> string \<Rightarrow> (string + response) \<times> 'w" where
  "try_fetch fetch w url =
     (case fetch w url of
        (Inl exc, w') \<Rightarrow> (Inl exc, w')
      | (Inr resp, w') \<Rightarrow>
          (case raise_for_status resp of
             Some exc \<Rightarrow> (Inl exc, w')
           | None \<Rightarrow> (Inr resp, w')))"

section \<open>The crawler: breadth-first traversal\<close>

text \<open>
  The state of \<open>crawl\<close>: its three variables \<open>visited\<close>, \<open>queue\<close> and \<open>all_links\<close>, the
  lines printed to \<open>sys.stderr\<close>, and the network \<open>net\<close> that \<open>requests.get\<close> reads and
  may change. Three history variables record what the loop did: \<open>enqueued\<close> lists every
  entry ever put on the queue, \<open>fetched\<close> every entry whose URL was passed to
  \<open>requests.get\<close>, and \<open>expanded\<close> every entry whose page was fetched, with the links
  extracted from it. The loop writes them and never reads them.
\<close>

record 'w crawl_state =
  visited :: "string set"
  queue :: "(string \<times> int) list"
  all_links :: "string list"
  stderr :: "string list"
  net :: 'w
  enqueued :: "(string \<times> int) list"
  fetched :: "(string \<times> int) list"
  expanded :: "(string \<times> int \<times> string list) list"

text \<open>The inner \<open>for link in ...\<close> loop of \<open>crawl\<close>.\<close>

fun visit_links :: "int \<Rightarrow> string list \<Rightarrow> 'w crawl_state \<Rightarrow> 'w crawl_state" where
  "visit_links lvl [] st = st"
| "visit_links lvl (link # links) st =
     (if link \<notin> visited st
      then visit_links lvl links
             (st\<lparr>visited := insert link (visited st),
                 all_links := all_links st @ [link],
                 queue := queue st @ [(link, lvl + 1)],
                 enqueued := enqueued st @ [(link, lvl + 1)]\<rparr>)
      else visit_links lvl links st)"

definition warning :: "string \<Rightarrow> string \<Rightarrow> string" where
  "warning url exc = ''[WARN] Could not fetch '' @ url @ '': '' @ exc"

text \<open>One iteration of the \<open>while queue\<close> loop, on a state with a non-empty queue. The
  call of \<open>extract_wiki_links\<close> stands after the \<open>try\<close> statement, so an exception it
  raises ends \<open>crawl\<close>.\<close>

definition crawl_step ::
  "(string \<Rightarrow> bool) \<Rightarrow> 'w fetcher \<Rightarrow> parser \<Rightarrow> int \<Rightarrow>
     'w crawl_state \<Rightarrow> error + 'w crawl_state" where
  "crawl_step chk fetch select_a_href depth st =
     (case queue st of
        [] \<Rightarrow> Inr st
      | (url, lvl) # rest \<Rightarrow>
          if lvl = depth then Inr (st\<lparr>queue := rest\<rparr>)
          else
            (case try_fetch fetch (net st) url of
               (Inl exc, w) \<Rightarrow>
                 Inr (st\<lparr>queue := rest, stderr := stderr st @ [warning url exc], net := w,
                         fetched := fetched st @ [(url, lvl)]\<rparr>)
             | (Inr resp, w) \<Rightarrow>
                 (case extract_wiki_links chk select_a_href (resp_text resp) of
                    Inl e \<Rightarrow> Inl e
                  | Inr links \<Rightarrow>
                      Inr (visit_links lvl links
                             (st\<lparr>queue := rest, net := w,
                                 fetched := fetched st @ [(url, lvl)],
                                 expanded := expanded st @ [(url, lvl, links)]\<rparr>)))))"

text \<open>The \<open>while queue\<close> loop. It need not terminate: \<open>None\<close> is a run that never
  returns, \<open>Some (Inl e)\<close> a run that an uncaught exception ends.\<close>

partial_function (option) crawl_loop ::
  "(string \<Rightarrow> bool) \<Rightarrow> 'w fetcher \<Rightarrow> parser \<Rightarrow> int \<Rightarrow>
     'w crawl_state \<Rightarrow> (error + 'w crawl_state) option" where
  "crawl_loop chk fetch select_a_href depth st =
     (if queue st = [] then Some (Inr st)
      else case crawl_step chk fetch select_a_href depth st of
             Inl e \<Rightarrow> Some (Inl e)
           | Inr st' \<Rightarrow> crawl_loop chk fetch select_a_href depth st')"

declare crawl_loop.simps [code]

definition init_state :: "string \<Rightarrow> 'w \<Rightarrow> 'w crawl_state" where
  "init_state seed_url w =
     \<lparr>visited = {seed_url}, queue = [(seed_url, 0)], all_links = [seed_url],
      stderr = [], net = w, enqueued = [(seed_url, 0)], fetched = [],
      expanded = []\<rparr>"

text \<open>\<open>crawl_run\<close> is the whole of \<open>crawl\<close> with its final state; \<open>crawl\<close> returns
  \<open>all_links\<close>.\<close>

definition crawl_run ::
  "(string \<Rightarrow> bool) \<Rightarrow> 'w fetcher \<Rightarrow> parser \<Rightarrow> 'w \<Rightarrow> string \<Rightarrow> int \<Rightarrow>
     (error + 'w crawl_state) option" where
  "crawl_run chk fetch select_a_href w seed_url depth =
     crawl_loop chk fetch select_a_href depth (init_state seed_url w)"

definition crawl ::
  "(string \<Rightarrow> bool) \<Rightarrow> 'w fetcher \<Rightarrow> parser \<Rightarrow> 'w \<Rightarrow> string \<Rightarrow> int \<Rightarrow>
     (error + string list) option" where
  "crawl chk fetch select_a_href w seed_url depth =
     (case crawl_run chk fetch select_a_href w seed_url depth of
        None \<Rightarrow> None
      | Some (Inl e) \<Rightarrow> Some (Inl e)
      | Some (Inr st) \<Rightarrow> Some (Inr (all_links st)))"

section \<open>Notions used in the proofs\<close>

text \<open>The text that \<open>urlsplit\<close> looks at for a netloc: the cleaned input, after the
  scheme if it has one.\<close>

definition after_scheme :: "string \<Rightarrow> string" where
  "after_scheme url0 =
     (let url = remove_unsafe (lstrip_c0 url0)
      in if has_scheme url then drop 1 (dropWhile (\<lambda>c. c \<noteq> CHR '':'') url) else url)"

text \<open>The links of a page that are not yet visited, each once, in the order of the page:
  what the inner loop of \<open>crawl\<close> appends.\<close>

fun new_links :: "string set \<Rightarrow> string list \<Rightarrow> string list" where
  "new_links V [] = []"
| "new_links V (l # ls) = (if l \<notin> V then l # new_links (insert l V) ls else new_links V ls)"

text \<open>The invariant of the \<open>while\<close> loop. The result holds the visited URLs, each once;
  the history of the queue lines up with the result; the queue is the part of that
  history not yet dequeued, and the entries passed to the fetcher are the dequeued ones
  whose level is not the depth; the levels never decrease along the history, and none
  exceeds the level of a waiting entry by more than one; every link extracted from a
  page is in the history, at most one level below the page.\<close>

definition crawl_inv :: "int \<Rightarrow> 'w crawl_state \<Rightarrow> bool" where
  "crawl_inv depth s =
     (distinct (all_links s) \<and> set (all_links s) = visited s \<and>
      map fst (enqueued s) = all_links s \<and>
      (\<exists>dequeued. enqueued s = dequeued @ queue s \<and>
                  fetched s = filter (\<lambda>e. snd e \<noteq> depth) dequeued) \<and>
      sorted (map snd (enqueued s)) \<and>
      (\<forall>e \<in> set (queue s). \<forall>e' \<in> set (enqueued s). snd e' \<le> snd e + 1) \<and>
      (\<forall>(url, lvl, links) \<in> set (expanded s).
         \<forall>l \<in> set links. \<exists>k. k \<le> lvl + 1 \<and> (l, k) \<in> set (enqueued s)))"

text \<open>The number of nodes of a tree of the given height in which every node has ten
  children: \<open>1 + 10 + ... + 10 ^ k\<close>.\<close>

fun tree_size :: "nat \<Rightarrow> nat" where
  "tree_size 0 = 1"
| "tree_size (Suc k) = 10 * tree_size k + 1"

text \<open>The work left: every waiting entry counts for the tree it could still grow.\<close>

definition work :: "int \<Rightarrow> 'w crawl_state \<Rightarrow> nat" where
  "work depth s = sum_list (map (\<lambda>e. tree_size (nat (depth - snd e))) (queue s))"

definition bounded_inv :: "int \<Rightarrow> 'w crawl_state \<Rightarrow> bool" where
  "bounded_inv depth s =
     (list_all (\<lambda>e. 0 \<le> snd e \<and> snd e \<le> depth) (queue s) \<and>
      length (enqueued s) + work depth s \<le> tree_size (nat depth) + length (queue s))"

text \<open>The link that \<open>extract_wiki_links\<close> appends for an href: \<open>urljoin(WIKI_BASE, href)\<close>
  where it returns.\<close>

definition resolved :: "(string \<Rightarrow> bool) \<Rightarrow> string \<Rightarrow> string" where
  "resolved chk href = (case urljoin chk WIKI_BASE href of Inl e \<Rightarrow> [] | Inr link \<Rightarrow> link)"

text \<open>The variables of \<open>crawl\<close> and its effects, without the history variables.\<close>

definition program_state ::
  "'w crawl_state \<Rightarrow> string set \<times> (string \<times> int) list \<times> string list \<times> string list \<times> 'w" where
  "program_state s = (visited s, queue s, all_links s, stderr s, net s)"

text \<open>What \<open>urlsplit\<close> returns without the fragment, and the two pieces it is made of:
  the scheme, and the path with the query.\<close>

definition split_core ::
  "error + (string \<times> string \<times> string \<times> string \<times> string) \<Rightarrow>
   error + (string \<times> string \<times> string \<times> string)" where
  "split_core r = map_sum id (\<lambda>(s, n, u, q, f). (s, n, u, q)) r"

definition scheme_of :: "string \<Rightarrow> string \<Rightarrow> string" where
  "scheme_of u sch =
     (if has_scheme (remove_unsafe (lstrip_c0 u))
      then map lower_char (takeWhile (\<lambda>c. c \<noteq> CHR '':'') (remove_unsafe (lstrip_c0 u)))
      else remove_unsafe (strip_c0 sch))"

definition path_query :: "string \<Rightarrow> string \<times> string" where
  "path_query v = (if contains v CHR ''?'' then split_once CHR ''?'' v else (v, ''''))"

text \<open>An href for an article as Wikipedia writes them: it matches the pattern, has no
  query, no parameters, no tab or line break, and no segment \<open>.\<close> or \<open>..\<close>.\<close>

definition plain_href :: "string \<Rightarrow> bool" where
  "plain_href h =
     (WIKI_PATH_RE_match h \<and>
      list_all (\<lambda>c. c \<noteq> CHR ''?'' \<and> c \<noteq> CHR '';'' \<and> c \<noteq> TAB \<and> c \<noteq> CR \<and> c \<noteq> LF) h \<and>
      list_all (\<lambda>seg. seg \<noteq> ''.'' \<and> seg \<noteq> ''..'') (split_on CHR ''/'' h))"
section \<open>Breadth-first order, level by level\<close>

text \<open>
  The order that the specification asks for, written without a queue. A page is
  expanded with the same two calls as in \<open>crawl\<close>: a failed fetch finds nothing, a
  fetched page finds its links that are not yet visited. A level is expanded as a
  whole, page by page in the order of the level, and what it finds is the next level.
  The result is the list of the levels, the seed alone being level 0; pages of the
  level \<open>depth\<close> are not expanded. An exception of the parser ends the traversal.
\<close>

definition expand_one ::
  "(string \<Rightarrow> bool) \<Rightarrow> 'w fetcher \<Rightarrow> parser \<Rightarrow> string set \<Rightarrow> 'w \<Rightarrow> string \<Rightarrow>
     error + (string list \<times> string set \<times> 'w)" where
  "expand_one chk fetch sel V w url =
     (case try_fetch fetch w url of
        (Inl exc, w') \<Rightarrow> Inr ([], V, w')
      | (Inr resp, w') \<Rightarrow>
          (case extract_wiki_links chk sel (resp_text resp) of
             Inl e \<Rightarrow> Inl e
           | Inr links \<Rightarrow> Inr (new_links V links, V \<union> set links, w')))"

fun expand_level ::
  "(string \<Rightarrow> bool) \<Rightarrow> 'w fetcher \<Rightarrow> parser \<Rightarrow> string list \<Rightarrow> string set \<Rightarrow> 'w \<Rightarrow>
     error + (string list \<times> string set \<times> 'w)" where
  "expand_level chk fetch sel [] V w = Inr ([], V, w)"
| "expand_level chk fetch sel (url # urls) V w =
     (case expand_one chk fetch sel V w url of
        Inl e \<Rightarrow> Inl e
      | Inr (found, V', w') \<Rightarrow>
          (case expand_level chk fetch sel urls V' w' of
             Inl e \<Rightarrow> Inl e
           | Inr (later, V'', w'') \<Rightarrow> Inr (found @ later, V'', w'')))"

fun levels_from ::
  "(string \<Rightarrow> bool) \<Rightarrow> 'w fetcher \<Rightarrow> parser \<Rightarrow> nat \<Rightarrow> string list \<Rightarrow> string set \<Rightarrow> 'w \<Rightarrow>
     error + string list list" where
  "levels_from chk fetch sel 0 frontier V w = Inr []"
| "levels_from chk fetch sel (Suc n) frontier V w =
     (case expand_level chk fetch sel frontier V w of
        Inl e \<Rightarrow> Inl e
      | Inr (next_level, V', w') \<Rightarrow>
          (case levels_from chk fetch sel n next_level V' w' of
             Inl e \<Rightarrow> Inl e
           | Inr ls \<Rightarrow> Inr (next_level # ls)))"

definition crawl_by_levels ::
  "(string \<Rightarrow> bool) \<Rightarrow> 'w fetcher \<Rightarrow> parser \<Rightarrow> 'w \<Rightarrow> string \<Rightarrow> int \<Rightarrow>
     error + string list list" where
  "crawl_by_levels chk fetch sel w seed depth =
     map_sum id (\<lambda>ls. [seed] # ls) (levels_from chk fetch sel (nat depth) [seed] {seed} w)"

text \<open>The URLs of a list of levels, in order, each with the number of its level.\<close>

fun with_levels :: "int \<Rightarrow> string list list \<Rightarrow> (string \<times> int) list" where
  "with_levels k [] = []"
| "with_levels k (l # ls) = map (\<lambda>u. (u, k)) l @ with_levels (k + 1) ls"

text \<open>
  The link between the two: in the middle of level \<open>L\<close>, with the pages \<open>us\<close> of the
  level still waiting and \<open>found\<close> already found for the next level, \<open>remaining\<close> is
  what the traversal by levels will still append. The invariant \<open>level_inv\<close> says that
  the queue is made of these two parts, and that the history of the queue followed by
  what remains is the traversal by levels.
\<close>

definition remaining ::
  "(string \<Rightarrow> bool) \<Rightarrow> 'w fetcher \<Rightarrow> parser \<Rightarrow> int \<Rightarrow> int \<Rightarrow> string list \<Rightarrow> string list \<Rightarrow>
     string set \<Rightarrow> 'w \<Rightarrow> error + (string \<times> int) list" where
  "remaining chk fetch sel depth L us found V w =
     (if depth \<le> L then Inr []
      else case expand_level chk fetch sel us V w of
             Inl e \<Rightarrow> Inl e
           | Inr (later, V', w') \<Rightarrow>
               (case levels_from chk fetch sel (nat (depth - L - 1)) (found @ later) V' w' of
                  Inl e \<Rightarrow> Inl e
                | Inr ls \<Rightarrow> Inr (map (\<lambda>u. (u, L + 1)) later @ with_levels (L + 2) ls)))"

definition level_inv ::
  "(string \<Rightarrow> bool) \<Rightarrow> 'w fetcher \<Rightarrow> parser \<Rightarrow> int \<Rightarrow> error + (string \<times> int) list \<Rightarrow>
     'w crawl_state \<Rightarrow> bool" where
  "level_inv chk fetch sel depth final s =
     (\<exists>L us found.
        0 \<le> L \<and> L \<le> depth \<and> (L = depth \<longrightarrow> found = []) \<and>
        queue s = map (\<lambda>u. (u, L)) us @ map (\<lambda>u. (u, L + 1)) found \<and>
        final = map_sum id ((@) (enqueued s))
                  (remaining chk fetch sel depth L us found (visited s) (net s)))"

section \<open>Small webs for the examples\<close>

text \<open>
  A web is a list of pages: a URL with the status code and reason phrase of its
  response and the \<open>href\<close> values of its anchors, or \<open>None\<close> where the markup of the page
  is one that the parser rejects. Fetching a URL of the list returns its response (the
  text is the URL itself, which is all the parser stand-in needs to find the page
  again); for any other URL the connection fails.
\<close>

type_synonym web = "(string \<times> int \<times> string \<times> string list option) list"

definition example_fetch :: "web \<Rightarrow> unit fetcher" where
  "example_fetch pages w url =
     (case map_of pages url of
        None \<Rightarrow> (Inl ''Connection refused'', w)
      | Some (status, reason, hrefs) \<Rightarrow>
          (Inr \<lparr>resp_status_code = status, resp_reason = reason, resp_url = url,
                resp_text = url\<rparr>, w))"

definition example_select :: "web \<Rightarrow> parser" where
  "example_select pages html =
     (case map_of pages html of None \<Rightarrow> Some [] | Some (status, reason, hrefs) \<Rightarrow> hrefs)"

text \<open>Cat links to Dog and Lion, to an anchor and to another site; Dog links back to
  Cat and to Wolf and Fox; the server answers 404 for Lion, with a page that links to
  Tiger.\<close>

definition zoo :: web where
  "zoo =
     [(''https://en.wikipedia.org/wiki/Cat'', 200, ''OK'',
         Some [''/wiki/Dog'', ''#top'', ''/wiki/Lion'', ''https://example.org/wiki/Cow'',
               ''/wiki/Dog'']),
      (''https://en.wikipedia.org/wiki/Dog'', 200, ''OK'',
         Some [''/wiki/Cat'', ''/wiki/Wolf'', ''/wiki/Fox'']),
      (''https://en.wikipedia.org/wiki/Lion'', 404, ''Not Found'', Some [''/wiki/Tiger'']),
      (''https://en.wikipedia.org/wiki/Wolf'', 200, ''OK'', Some [''/wiki/Bear''])]"

text \<open>A page whose only anchor points to the parent of the article directory.\<close>

definition dotdot :: web where
  "dotdot = [(''https://en.wikipedia.org/wiki/Cat'', 200, ''OK'', Some [''/wiki/..''])]"



abbreviation (input) Cat :: string where "Cat \<equiv> ''https://en.wikipedia.org/wiki/Cat''"
abbreviation (input) Dog :: string where "Dog \<equiv> ''https://en.wikipedia.org/wiki/Dog''"
abbreviation (input) Lion :: string where "Lion \<equiv> ''https://en.wikipedia.org/wiki/Lion''"
abbreviation (input) Wolf :: string where "Wolf \<equiv> ''https://en.wikipedia.org/wiki/Wolf''"
abbreviation (input) Fox :: string where "Fox \<equiv> ''https://en.wikipedia.org/wiki/Fox''"

text \<open>The state in which the crawl of the zoo from Cat with depth 2 ends.\<close>

definition zoo_final :: "unit crawl_state" where
  "zoo_final =
     \<lparr>visited = {Cat, Dog, Lion, Wolf, Fox}, queue = [],
      all_links = [Cat, Dog, Lion, Wolf, Fox],
      stderr = [''[WARN] Could not fetch https://en.wikipedia.org/wiki/Lion: 404 Client Error: Not Found for url: https://en.wikipedia.org/wiki/Lion''],
      net = (),
      enqueued = [(Cat, 0), (Dog, 1), (Lion, 1), (Wolf, 2), (Fox, 2)],
      fetched = [(Cat, 0), (Dog, 1), (Lion, 1)],
      expanded = [(Cat, 0, [Dog, Lion]), (Dog, 1, [Cat, Wolf, Fox])]\<rparr>"


section \<open>Facts about the URL functions\<close>

lemma contains_iff: "contains s c = (c \<in> set s)"
  by (simp add: contains_def)

text \<open>The pattern matches exactly the strings that start with \<open>/wiki/\<close> and go on with
  at least one character, none of them a colon or a hash: the line feed that \<open>$\<close>
  tolerates is itself in the class \<open>[^:#]\<close>.\<close>

lemma WIKI_PATH_RE_match_iff:
  "WIKI_PATH_RE_match s =
     (take 6 s = ''/wiki/'' \<and> drop 6 s \<noteq> [] \<and> list_all not_colon_hash (drop 6 s))"
proof -
  define rest where "rest = drop 6 s"
  define n where "n = length (takeWhile not_colon_hash rest)"
  have n_le: "n \<le> length rest"
    unfolding n_def by (rule length_takeWhile_le)
  have stop: "\<not> not_colon_hash (rest ! n)" if "n < length rest"
    using that unfolding n_def by (rule nth_length_takeWhile)
  have all_iff: "list_all not_colon_hash rest = (n = length rest)"
    unfolding n_def list_all_iff
    by (metis length_takeWhile_le takeWhile_eq_all_conv takeWhile_eq_take take_all)
  have "(\<exists>k\<in>set [1..<Suc n]. drop k rest = [] \<or> drop k rest = [LF]) =
          (rest \<noteq> [] \<and> n = length rest)"
  proof
    assume "\<exists>k\<in>set [1..<Suc n]. drop k rest = [] \<or> drop k rest = [LF]"
    then obtain k where k: "1 \<le> k" "k \<le> n" and d: "drop k rest = [] \<or> drop k rest = [LF]"
      by auto
    from d show "rest \<noteq> [] \<and> n = length rest"
    proof
      assume "drop k rest = []"
      then have "length rest \<le> k" by simp
      with k n_le show ?thesis by auto
    next
      assume lf: "drop k rest = [LF]"
      then have "length (drop k rest) = 1" by simp
      then have len: "length rest = Suc k" by simp
      have "rest ! k = LF"
        using lf len by (metis Cons_nth_drop_Suc lessI list.inject)
      then have ok: "not_colon_hash (rest ! k)"
        by (simp add: not_colon_hash_def LF_def)
      have "n = length rest"
      proof (rule ccontr)
        assume "n \<noteq> length rest"
        with n_le len k have "n = k" "n < length rest" by auto
        with stop ok show False by simp
      qed
      with len show ?thesis by auto
    qed
  next
    assume a: "rest \<noteq> [] \<and> n = length rest"
    then have "length rest \<in> set [1..<Suc n]" by (cases rest) auto
    moreover have "drop (length rest) rest = []" by simp
    ultimately show "\<exists>k\<in>set [1..<Suc n]. drop k rest = [] \<or> drop k rest = [LF]"
      by blast
  qed
  then show ?thesis
    unfolding WIKI_PATH_RE_match_def Let_def list_ex_iff rest_def [symmetric] n_def [symmetric]
    using all_iff by auto
qed

subsection \<open>Where \<open>ValueError\<close> comes from\<close>

lemma urlsplit_raises_iff:
  "(urlsplit chk url sch = Inl e) = (split_netloc_checked chk (after_scheme url) = Inl e)"
  by (auto simp: urlsplit_def after_scheme_def Let_def split: sum.splits prod.splits if_splits)

lemma urlparse_raises_iff:
  "(urlparse chk url sch = Inl e) = (urlsplit chk url sch = Inl e)"
  by (auto simp: urlparse_def Let_def split: sum.splits prod.splits)

lemma is_valid_raises_iff:
  "(is_valid_wiki_url chk url = Inl e) = (urlparse chk url '''' = Inl e)"
  by (auto simp: is_valid_wiki_url_def split: sum.splits)

lemma set_remove_unsafe: "set (remove_unsafe s) \<subseteq> set s"
  by (auto simp: remove_unsafe_def)

lemma set_lstrip_c0: "set (lstrip_c0 s) \<subseteq> set s"
  by (auto simp: lstrip_c0_def dest: set_dropWhileD)

lemma set_after_colon: "set (drop 1 (dropWhile P s)) \<subseteq> set s"
  by (auto dest: in_set_dropD set_dropWhileD)

lemma set_splitnetloc_fst: "set (fst (splitnetloc u)) \<subseteq> set u"
  by (auto simp: splitnetloc_def dest: set_takeWhileD in_set_dropD)

lemma set_after_scheme: "set (after_scheme url) \<subseteq> set url"
  using set_remove_unsafe [of "lstrip_c0 url"] set_lstrip_c0 [of url]
    set_after_colon [of "\<lambda>c. c \<noteq> CHR '':''" "remove_unsafe (lstrip_c0 url)"]
  by (auto simp: after_scheme_def Let_def)

lemma split_netloc_checked_no_bracket:
  "CHR ''['' \<notin> set u \<Longrightarrow> CHR '']'' \<notin> set u \<Longrightarrow>
   \<exists>n r. split_netloc_checked chk u = Inr (n, r)"
  using set_splitnetloc_fst [of u]
  by (auto simp: split_netloc_checked_def Let_def contains_iff split: prod.splits)

lemma is_valid_no_bracket:
  assumes "CHR ''['' \<notin> set url" "CHR '']'' \<notin> set url"
  shows "\<exists>b. is_valid_wiki_url chk url = Inr b"
proof -
  from assms set_after_scheme [of url]
  have "CHR ''['' \<notin> set (after_scheme url)" "CHR '']'' \<notin> set (after_scheme url)" by auto
  then obtain n r where "split_netloc_checked chk (after_scheme url) = Inr (n, r)"
    using split_netloc_checked_no_bracket by blast
  then have "is_valid_wiki_url chk url \<noteq> Inl e" for e
    by (simp add: is_valid_raises_iff urlparse_raises_iff urlsplit_raises_iff)
  then show ?thesis
    by (cases "is_valid_wiki_url chk url") auto
qed

subsection \<open>Hrefs that match the pattern\<close>

lemma match_decompose:
  assumes "WIKI_PATH_RE_match h"
  obtains r where "h = ''/wiki/'' @ r" "r \<noteq> []" "CHR '':'' \<notin> set r" "CHR ''#'' \<notin> set r"
proof -
  from assms have t: "take 6 h = ''/wiki/''" and d: "drop 6 h \<noteq> []"
    and a: "list_all not_colon_hash (drop 6 h)"
    by (simp_all add: WIKI_PATH_RE_match_iff)
  have "h = take 6 h @ drop 6 h" by simp
  with t have "h = ''/wiki/'' @ drop 6 h" by simp
  moreover from a have "CHR '':'' \<notin> set (drop 6 h)" "CHR ''#'' \<notin> set (drop 6 h)"
    by (auto simp: list_all_iff not_colon_hash_def)
  ultimately show thesis using d that by blast
qed

lemma match_no_colon: "WIKI_PATH_RE_match h \<Longrightarrow> CHR '':'' \<notin> set h"
  by (erule match_decompose) auto

lemma after_scheme_match:
  assumes "WIKI_PATH_RE_match h"
  shows "take 2 (after_scheme h) = ''/w''"
proof -
  from assms obtain r where h: "h = ''/wiki/'' @ r" and nc: "CHR '':'' \<notin> set r"
    by (rule match_decompose)
  have 1: "lstrip_c0 h = h"
    by (simp add: h lstrip_c0_def c0_or_space_def)
  have 2: "remove_unsafe h = ''/wiki/'' @ remove_unsafe r"
    by (simp add: h remove_unsafe_def TAB_def CR_def LF_def)
  have "CHR '':'' \<notin> set (remove_unsafe h)"
    using nc by (auto simp: h remove_unsafe_def)
  then have 3: "\<not> has_scheme (remove_unsafe h)"
    by (simp add: has_scheme_def contains_iff)
  show ?thesis
    by (simp add: after_scheme_def 1 3 Let_def) (simp add: 2)
qed

lemma urlparse_match_returns:
  assumes "WIKI_PATH_RE_match h"
  shows "\<exists>u. urlparse chk h sch = Inr u"
proof -
  have "split_netloc_checked chk (after_scheme h) = Inr ('''', after_scheme h)"
    using after_scheme_match [OF assms] by (simp add: split_netloc_checked_def)
  then have "urlparse chk h sch \<noteq> Inl e" for e
    by (simp add: urlparse_raises_iff urlsplit_raises_iff)
  then show ?thesis
    by (cases "urlparse chk h sch") auto
qed

lemma urlparse_WIKI_BASE:
  "urlparse chk WIKI_BASE '''' =
     Inr \<lparr>scheme = ''https'', netloc = ''en.wikipedia.org'', path = '''', params = '''',
          query = '''', fragment = ''''\<rparr>"
  by (simp add: WIKI_BASE_def urlparse_def urlsplit_def split_netloc_checked_def splitnetloc_def
     has_scheme_def contains_def lstrip_c0_def strip_c0_def remove_unsafe_def c0_or_space_def
     TAB_def CR_def LF_def ascii_alpha_def lower_char_def scheme_chars_def netloc_char_def
     split_once_def uses_params_def Let_def)

lemma urljoin_match_returns:
  assumes "WIKI_PATH_RE_match h"
  shows "\<exists>l. urljoin chk WIKI_BASE h = Inr l"
proof -
  obtain u where "urlparse chk h ''https'' = Inr u"
    using urlparse_match_returns [OF assms] by blast
  then show ?thesis
    by (simp add: urljoin_def urlparse_WIKI_BASE Let_def)
qed

subsection \<open>The extraction loop\<close>

lemma extract_loop_returns: "\<exists>ls. extract_loop chk hrefs links seen = Inr ls"
proof (induction hrefs arbitrary: links seen)
  case Nil
  show ?case by simp
next
  case (Cons h hrefs)
  show ?case
  proof (cases "WIKI_PATH_RE_match h \<and> h \<notin> seen")
    case True
    then obtain l where "urljoin chk WIKI_BASE h = Inr l"
      using urljoin_match_returns by blast
    with True Cons.IH [of "links @ [l]" "insert h seen"] show ?thesis by auto
  next
    case False
    with Cons.IH [of links seen] show ?thesis by auto
  qed
qed

lemma extract_loop_length:
  "extract_loop chk hrefs links seen = Inr ls \<Longrightarrow> length links < 10 \<Longrightarrow> length ls \<le> 10"
proof (induction hrefs arbitrary: links seen)
  case Nil
  then show ?case by simp
next
  case (Cons h hrefs)
  show ?case
  proof (cases "WIKI_PATH_RE_match h \<and> h \<notin> seen")
    case True
    then obtain l where l: "urljoin chk WIKI_BASE h = Inr l"
      using urljoin_match_returns by blast
    show ?thesis
    proof (cases "length (links @ [l]) = 10")
      case True
      with Cons.prems \<open>WIKI_PATH_RE_match h \<and> h \<notin> seen\<close> l show ?thesis by auto
    next
      case False
      with Cons.prems \<open>WIKI_PATH_RE_match h \<and> h \<notin> seen\<close> l
      have "extract_loop chk hrefs (links @ [l]) (insert h seen) = Inr ls"
        "length (links @ [l]) < 10" by auto
      then show ?thesis by (rule Cons.IH)
    qed
  next
    case False
    with Cons.prems have "extract_loop chk hrefs links seen = Inr ls" by auto
    then show ?thesis using Cons.prems(2) by (rule Cons.IH)
  qed
qed

text \<open>The function raises what the parser raises, and nothing else.\<close>

lemma extract_wiki_links_returns:
  assumes "sel html = Some hrefs"
  shows "\<exists>ls. extract_wiki_links chk sel html = Inr ls \<and> length ls \<le> 10"
proof -
  obtain ls where ls: "extract_loop chk hrefs [] {} = Inr ls"
    using extract_loop_returns by blast
  then have "length ls \<le> 10" by (rule extract_loop_length) simp
  with ls assms show ?thesis by (simp add: extract_wiki_links_def)
qed

lemma extract_wiki_links_raises:
  "extract_wiki_links chk sel html = Inl e \<longleftrightarrow> e = ParserRejectedMarkup \<and> sel html = None"
proof (cases "sel html")
  case None
  then show ?thesis by (auto simp: extract_wiki_links_def)
next
  case (Some hrefs)
  with extract_wiki_links_returns [of sel html hrefs chk] show ?thesis by auto
qed

subsection \<open>The parsed path has no hash\<close>

lemma set_split_once_fst: "set (fst (split_once c s)) \<subseteq> set s"
  by (auto simp: split_once_def dest: set_takeWhileD)

lemma split_once_fst_no_sep: "c \<notin> set (fst (split_once c s))"
  by (auto simp: split_once_def dest: set_takeWhileD)

lemma urlsplit_path_no_hash:
  assumes "urlsplit chk url sch = Inr (s, n, u, q, f)"
  shows "CHR ''#'' \<notin> set u"
proof -
  obtain nl r where r: "split_netloc_checked chk (after_scheme url) = Inr (nl, r)"
    and u: "u = fst (let (v, fr) = (if contains r CHR ''#'' then split_once CHR ''#'' r else (r, ''''))
                 in (if contains v CHR ''?'' then split_once CHR ''?'' v else (v, '''')))"
    using assms
    by (auto simp: urlsplit_def after_scheme_def Let_def split: sum.splits prod.splits if_splits)
  define v where "v = fst (if contains r CHR ''#'' then split_once CHR ''#'' r else (r, ''''))"
  have v: "CHR ''#'' \<notin> set v"
    using split_once_fst_no_sep [of "CHR ''#''" r] by (auto simp: v_def contains_iff)
  have "u = fst (if contains v CHR ''?'' then split_once CHR ''?'' v else (v, ''''))"
    by (simp add: u v_def split: prod.splits)
  then have "set u \<subseteq> set v"
    using set_split_once_fst [of "CHR ''?''" v] by (auto split: if_splits)
  with v show ?thesis by blast
qed

lemma set_splitparams_fst: "set (fst (splitparams u)) \<subseteq> set u"
  using set_split_once_fst [of "CHR '';''" u]
  by (auto simp: splitparams_def Let_def dest: in_set_takeD in_set_dropD set_takeWhileD)

lemma urlparse_path_no_hash:
  assumes "urlparse chk url sch = Inr p"
  shows "CHR ''#'' \<notin> set (path p)"
proof -
  from assms obtain s n u q f where sp: "urlsplit chk url sch = Inr (s, n, u, q, f)"
    and p: "path p = (if s \<in> set uses_params \<and> contains u CHR '';'' then fst (splitparams u) else u)"
    by (auto simp: urlparse_def Let_def split: sum.splits prod.splits if_splits)
  from sp have "CHR ''#'' \<notin> set u" by (rule urlsplit_path_no_hash)
  then show ?thesis
    using set_splitparams_fst [of u] by (auto simp: p)
qed

lemma extract_loop_sources:
  "extract_loop chk hrefs links seen = Inr ls \<Longrightarrow> l \<in> set ls \<Longrightarrow>
   l \<in> set links \<or> (\<exists>h \<in> set hrefs. WIKI_PATH_RE_match h \<and> urljoin chk WIKI_BASE h = Inr l)"
proof (induction hrefs arbitrary: links seen)
  case Nil
  then show ?case by simp
next
  case (Cons h hrefs)
  show ?case
  proof (cases "WIKI_PATH_RE_match h \<and> h \<notin> seen")
    case True
    then obtain l' where l': "urljoin chk WIKI_BASE h = Inr l'"
      using urljoin_match_returns by blast
    show ?thesis
    proof (cases "length (links @ [l']) = 10")
      case full: True
      with Cons.prems True l' have "ls = links @ [l']" by simp
      with Cons.prems(2) True l' show ?thesis by auto
    next
      case False
      with Cons.prems True l'
      have "extract_loop chk hrefs (links @ [l']) (insert h seen) = Inr ls" by simp
      from Cons.IH [OF this Cons.prems(2)] True l' show ?thesis by auto
    qed
  next
    case False
    show ?thesis
    proof (cases "length links = 10")
      case True
      with Cons.prems False have "ls = links" by auto
      with Cons.prems(2) show ?thesis by simp
    next
      case ne: False
      with Cons.prems False have "extract_loop chk hrefs links seen = Inr ls" by auto
      from Cons.IH [OF this Cons.prems(2)] show ?thesis by auto
    qed
  qed
qed

lemma extract_loop_filter:
  assumes "\<And>h. WIKI_PATH_RE_match h \<Longrightarrow> P h" and "length links \<noteq> 10"
  shows "extract_loop chk (filter P hrefs) links seen = extract_loop chk hrefs links seen"
  using assms(2)
proof (induction hrefs arbitrary: links seen)
  case Nil
  show ?case by simp
next
  case (Cons h hrefs)
  show ?case
  proof (cases "WIKI_PATH_RE_match h \<and> h \<notin> seen")
    case True
    then have P: "P h" using assms(1) by blast
    obtain l' where l': "urljoin chk WIKI_BASE h = Inr l'"
      using True urljoin_match_returns by blast
    show ?thesis
    proof (cases "length (links @ [l']) = 10")
      case full: True
      with True P l' show ?thesis by simp
    next
      case False
      from Cons.IH [OF this] True P l' False show ?thesis by simp
    qed
  next
    case False
    from Cons.IH [OF Cons.prems] False Cons.prems show ?thesis by auto
  qed
qed

text \<open>The loop in closed form: the first ten distinct hrefs that match the pattern, in
  the order of the document, each resolved against the base.\<close>

lemma extract_loop_eq:
  "length links < 10 \<Longrightarrow>
   extract_loop chk hrefs links seen =
     Inr (links @ map (resolved chk)
            (take (10 - length links) (new_links seen (filter WIKI_PATH_RE_match hrefs))))"
proof (induction hrefs arbitrary: links seen)
  case Nil
  show ?case by simp
next
  case (Cons h hrefs)
  show ?case
  proof (cases "WIKI_PATH_RE_match h")
    case False
    with Cons.IH [OF Cons.prems] Cons.prems show ?thesis by simp
  next
    case True
    show ?thesis
    proof (cases "h \<in> seen")
      case True
      with Cons.IH [OF Cons.prems] Cons.prems \<open>WIKI_PATH_RE_match h\<close> show ?thesis by simp
    next
      case False
      obtain l where l: "urljoin chk WIKI_BASE h = Inr l"
        using \<open>WIKI_PATH_RE_match h\<close> urljoin_match_returns by blast
      then have r: "resolved chk h = l" by (simp add: resolved_def)
      from Cons.prems obtain m where m: "10 - length links = Suc m"
        by (cases "10 - length links") auto
      show ?thesis
      proof (cases "length (links @ [l]) = 10")
        case True
        then have "m = 0" using m by simp
        with True False \<open>WIKI_PATH_RE_match h\<close> l r m show ?thesis by simp
      next
        case ne: False
        with Cons.prems have lt: "length (links @ [l]) < 10" by simp
        have "10 - length (links @ [l]) = m" using m by simp
        with Cons.IH [OF lt, of "insert h seen"] ne False \<open>WIKI_PATH_RE_match h\<close> l r m
        show ?thesis by simp
      qed
    qed
  qed
qed

lemma extract_wiki_links_eq:
  "extract_wiki_links chk sel html =
     (case sel html of None \<Rightarrow> Inl ParserRejectedMarkup
      | Some hrefs \<Rightarrow>
          Inr (map (resolved chk) (take 10 (new_links {} (filter WIKI_PATH_RE_match hrefs)))))"
  by (simp add: extract_wiki_links_def extract_loop_eq split: option.splits)

subsection \<open>A fragment does not change the verdict\<close>

lemma dropWhile_append_stop: "\<not> P y \<Longrightarrow> dropWhile P (xs @ y # ys) = dropWhile P xs @ y # ys"
  by (induction xs) auto

lemma takeWhile_append_stop: "\<not> P y \<Longrightarrow> takeWhile P (xs @ y # ys) = takeWhile P xs"
  by (induction xs) auto

lemma lstrip_c0_hash: "lstrip_c0 (url @ CHR ''#'' # frag) = lstrip_c0 url @ CHR ''#'' # frag"
  by (simp add: lstrip_c0_def c0_or_space_def dropWhile_append_stop)

lemma remove_unsafe_hash:
  "remove_unsafe (a @ CHR ''#'' # f) = remove_unsafe a @ CHR ''#'' # remove_unsafe f"
  by (simp add: remove_unsafe_def TAB_def CR_def LF_def)

lemma has_scheme_hash: "has_scheme (a @ CHR ''#'' # f) = has_scheme a"
proof (cases "CHR '':'' \<in> set a")
  case True
  then have "takeWhile (\<lambda>c. c \<noteq> CHR '':'') (a @ CHR ''#'' # f) = takeWhile (\<lambda>c. c \<noteq> CHR '':'') a"
    by (simp add: takeWhile_append1)
  moreover from True have "a \<noteq> []" by auto
  then have "hd (a @ CHR ''#'' # f) = hd a" by simp
  ultimately show ?thesis using True by (simp add: has_scheme_def contains_iff)
next
  case False
  then have "takeWhile (\<lambda>c. c \<noteq> CHR '':'') (a @ CHR ''#'' # f) =
      a @ CHR ''#'' # takeWhile (\<lambda>c. c \<noteq> CHR '':'') f"
    by (subst takeWhile_append2) auto
  then have "\<not> list_all (contains scheme_chars) (takeWhile (\<lambda>c. c \<noteq> CHR '':'') (a @ CHR ''#'' # f))"
    by (simp add: contains_iff scheme_chars_def)
  with False show ?thesis by (simp add: has_scheme_def contains_iff)
qed

lemma after_colon_hash:
  assumes "CHR '':'' \<in> set a"
  shows "drop 1 (dropWhile (\<lambda>c. c \<noteq> CHR '':'') (a @ CHR ''#'' # f)) =
         drop 1 (dropWhile (\<lambda>c. c \<noteq> CHR '':'') a) @ CHR ''#'' # f"
proof -
  from assms have "dropWhile (\<lambda>c. c \<noteq> CHR '':'') a \<noteq> []" by (simp add: dropWhile_eq_Nil_conv)
  moreover from assms have "dropWhile (\<lambda>c. c \<noteq> CHR '':'') (a @ CHR ''#'' # f) =
      dropWhile (\<lambda>c. c \<noteq> CHR '':'') a @ CHR ''#'' # f"
    by (simp add: dropWhile_append1)
  ultimately show ?thesis by (cases "dropWhile (\<lambda>c. c \<noteq> CHR '':'') a") auto
qed

lemma after_scheme_hash:
  "after_scheme (url @ CHR ''#'' # frag) = after_scheme url @ CHR ''#'' # remove_unsafe frag"
proof -
  let ?a = "remove_unsafe (lstrip_c0 url)"
  show ?thesis
  proof (cases "has_scheme ?a")
    case True
    then have "CHR '':'' \<in> set ?a" by (simp add: has_scheme_def contains_iff)
    from after_colon_hash [OF this, of "remove_unsafe frag"] True show ?thesis
      unfolding after_scheme_def lstrip_c0_hash remove_unsafe_hash has_scheme_hash Let_def
      by (simp only: if_True)
  next
    case False
    then show ?thesis
      by (simp add: after_scheme_def lstrip_c0_hash remove_unsafe_hash has_scheme_hash)
  qed
qed

lemma take2_hash: "(take 2 (b @ CHR ''#'' # f) = ''//'') = (take 2 b = ''//'')"
proof (cases b)
  case Nil
  then show ?thesis by simp
next
  case (Cons x b')
  then show ?thesis by (cases b') auto
qed

lemma split_netloc_checked_hash:
  "split_netloc_checked chk (b @ CHR ''#'' # f) =
     map_sum id (\<lambda>(n, r). (n, r @ CHR ''#'' # f)) (split_netloc_checked chk b)"
proof (cases "take 2 b = ''//''")
  case True
  then have "2 \<le> length b" by (cases b; cases "tl b") auto
  then have d: "drop 2 (b @ CHR ''#'' # f) = drop 2 b @ CHR ''#'' # f" by simp
  obtain n r where nr: "splitnetloc b = (n, r)" by (cases "splitnetloc b")
  have "splitnetloc (b @ CHR ''#'' # f) =
      (fst (splitnetloc b), snd (splitnetloc b) @ CHR ''#'' # f)"
    unfolding splitnetloc_def d
    by (simp add: takeWhile_append_stop dropWhile_append_stop netloc_char_def)
  with nr have nr': "splitnetloc (b @ CHR ''#'' # f) = (n, r @ CHR ''#'' # f)" by simp
  from True have t: "take 2 (b @ CHR ''#'' # f) = ''//''" by (simp only: take2_hash)
  show ?thesis
    unfolding split_netloc_checked_def nr nr' t True by simp
next
  case False
  then have "take 2 (b @ CHR ''#'' # f) \<noteq> ''//''" by (simp only: take2_hash not_False_eq_True)
  with False show ?thesis by (simp add: split_netloc_checked_def)
qed

lemma fragment_part_hash:
  "fst (split_once CHR ''#'' (r @ CHR ''#'' # f)) =
   fst (if contains r CHR ''#'' then split_once CHR ''#'' r else (r, ''''))"
  by (auto simp: split_once_def contains_iff takeWhile_append_stop takeWhile_eq_all_conv)

lemma split_core_urlsplit:
  "split_core (urlsplit chk u sch) =
     (case split_netloc_checked chk (after_scheme u) of
        Inl e \<Rightarrow> Inl e
      | Inr (nl, r) \<Rightarrow>
          Inr (scheme_of u sch, nl,
               path_query (fst (if contains r CHR ''#'' then split_once CHR ''#'' r else (r, '''')))))"
  by (simp add: split_core_def urlsplit_def after_scheme_def scheme_of_def path_query_def Let_def
      split: sum.splits prod.splits)

lemma scheme_of_hash: "scheme_of (url @ CHR ''#'' # frag) sch = scheme_of url sch"
proof -
  let ?a = "remove_unsafe (lstrip_c0 url)"
  have "takeWhile (\<lambda>c. c \<noteq> CHR '':'') (?a @ CHR ''#'' # remove_unsafe frag) =
      takeWhile (\<lambda>c. c \<noteq> CHR '':'') ?a" if "has_scheme ?a"
    using that takeWhile_append1 [of "CHR '':''" ?a "\<lambda>c. c \<noteq> CHR '':''"]
    by (simp add: has_scheme_def contains_iff)
  then show ?thesis
    by (simp add: scheme_of_def lstrip_c0_hash remove_unsafe_hash has_scheme_hash)
qed

lemma urlsplit_hash:
  "split_core (urlsplit chk (url @ CHR ''#'' # frag) sch) = split_core (urlsplit chk url sch)"
proof (cases "split_netloc_checked chk (after_scheme url)")
  case (Inl e)
  then show ?thesis
    by (simp add: split_core_urlsplit after_scheme_hash split_netloc_checked_hash)
next
  case (Inr nr)
  obtain nl r where nr: "nr = (nl, r)" by (cases nr)
  have "contains (r @ CHR ''#'' # remove_unsafe frag) CHR ''#''" by (simp add: contains_iff)
  with Inr nr fragment_part_hash [of r "remove_unsafe frag"] show ?thesis
    by (simp add: split_core_urlsplit after_scheme_hash split_netloc_checked_hash scheme_of_hash)
qed

lemma is_valid_via_core:
  "is_valid_wiki_url chk url =
     (case split_core (urlsplit chk url '''') of
        Inl e \<Rightarrow> Inl e
      | Inr (s, n, u, q) \<Rightarrow>
          Inr (s \<in> set [''http'', ''https''] \<and> endswith n ''wikipedia.org'' \<and>
               WIKI_PATH_RE_match
                 (if s \<in> set uses_params \<and> contains u CHR '';'' then fst (splitparams u) else u)))"
  by (auto simp: is_valid_wiki_url_def urlparse_def split_core_def Let_def
      split: sum.splits prod.splits)

lemma is_valid_fragment:
  "is_valid_wiki_url chk (url @ CHR ''#'' # frag) = is_valid_wiki_url chk url"
  by (simp only: is_valid_via_core urlsplit_hash)

subsection \<open>Plain hrefs resolve to valid article URLs\<close>

lemma split_on_not_Nil: "split_on c s \<noteq> []"
  by (induction s) (auto split: list.splits)

lemma join_split_on: "join [c] (split_on c s) = s"
proof (induction s)
  case Nil
  show ?case by simp
next
  case (Cons x s)
  obtain p ps where ps: "split_on c s = p # ps"
    using split_on_not_Nil [of c s] by (cases "split_on c s") auto
  with Cons show ?case by (cases ps) auto
qed

lemma resolve_segments_plain:
  "list_all (\<lambda>seg. seg \<noteq> ''.'' \<and> seg \<noteq> ''..'') segs \<Longrightarrow> resolve_segments segs acc = acc @ segs"
  by (induction segs arbitrary: acc) auto

lemma remove_unsafe_id:
  "list_all (\<lambda>c. c \<noteq> TAB \<and> c \<noteq> CR \<and> c \<noteq> LF) s \<Longrightarrow> remove_unsafe s = s"
  by (induction s) (auto simp: remove_unsafe_def)

lemma urlparse_plain:
  assumes "plain_href h"
  shows "urlparse chk h ''https'' =
     Inr \<lparr>scheme = ''https'', netloc = '''', path = h, params = '''', query = '''',
          fragment = ''''\<rparr>"
proof -
  from assms have m: "WIKI_PATH_RE_match h"
    and c: "list_all (\<lambda>c. c \<noteq> CHR ''?'' \<and> c \<noteq> CHR '';'' \<and> c \<noteq> TAB \<and> c \<noteq> CR \<and> c \<noteq> LF) h"
    by (simp_all add: plain_href_def)
  from m obtain r where h: "h = ''/wiki/'' @ r" and r: "CHR '':'' \<notin> set r" "CHR ''#'' \<notin> set r"
    by (rule match_decompose)
  have 1: "lstrip_c0 h = h" by (simp add: h lstrip_c0_def c0_or_space_def)
  from c have "list_all (\<lambda>c. c \<noteq> TAB \<and> c \<noteq> CR \<and> c \<noteq> LF) h" by (auto simp: list_all_iff)
  then have 2: "remove_unsafe h = h" by (rule remove_unsafe_id)
  from match_no_colon [OF m] have 3: "\<not> has_scheme h" by (simp add: has_scheme_def contains_iff)
  have 4: "split_netloc_checked chk h = Inr ('''', h)"
    by (simp add: split_netloc_checked_def h)
  from r have 5: "\<not> contains h CHR ''#''" by (simp add: h contains_iff)
  from c have 6: "\<not> contains h CHR ''?''" "\<not> contains h CHR '';''"
    by (auto simp: contains_iff list_all_iff)
  have 7: "remove_unsafe (strip_c0 ''https'') = ''https''"
    by (simp add: strip_c0_def c0_or_space_def remove_unsafe_def TAB_def CR_def LF_def)
  show ?thesis
    by (simp add: urlparse_def urlsplit_def 1 2 3 4 5 6 7 Let_def)
qed

lemma urljoin_plain:
  assumes "plain_href h"
  shows "urljoin chk WIKI_BASE h = Inr (WIKI_BASE @ h)"
proof -
  from assms have m: "WIKI_PATH_RE_match h"
    and d: "list_all (\<lambda>seg. seg \<noteq> ''.'' \<and> seg \<noteq> ''..'') (split_on CHR ''/'' h)"
    by (simp_all add: plain_href_def)
  from m obtain r where h: "h = ''/wiki/'' @ r" by (rule match_decompose)
  then have ne: "h \<noteq> []" and t: "take 1 h = ''/''" by simp_all
  let ?segs = "split_on CHR ''/'' h"
  have "?segs \<noteq> []" by (rule split_on_not_Nil)
  with d have l: "last ?segs \<noteq> ''.''" "last ?segs \<noteq> ''..''"
    by (auto simp: list_all_iff dest: last_in_set)
  have rs: "resolve_segments ?segs [] = ?segs"
    using resolve_segments_plain [OF d, of "[]"] by simp
  have j: "join ''/'' ?segs = h" by (rule join_split_on)
  show ?thesis
    by (simp add: urljoin_def urlparse_WIKI_BASE urlparse_plain [OF assms] Let_def ne t l rs j)
      (simp add: WIKI_BASE_def uses_relative_def uses_netloc_def urlunparse_def urlunsplit_def
        ne t h)
qed

lemma is_valid_plain:
  assumes "plain_href h"
  shows "is_valid_wiki_url chk (WIKI_BASE @ h) = Inr True"
proof -
  from assms have m: "WIKI_PATH_RE_match h"
    and c: "list_all (\<lambda>c. c \<noteq> CHR ''?'' \<and> c \<noteq> CHR '';'' \<and> c \<noteq> TAB \<and> c \<noteq> CR \<and> c \<noteq> LF) h"
    by (simp_all add: plain_href_def)
  from m obtain r where h: "h = ''/wiki/'' @ r" and r: "CHR '':'' \<notin> set r" "CHR ''#'' \<notin> set r"
    by (rule match_decompose)
  define u where "u = ''https://en.wikipedia.org'' @ h"
  define v where "v = ''//en.wikipedia.org'' @ h"
  have 1: "lstrip_c0 u = u" by (simp add: u_def lstrip_c0_def c0_or_space_def)
  from c have "list_all (\<lambda>c. c \<noteq> TAB \<and> c \<noteq> CR \<and> c \<noteq> LF) h" by (auto simp: list_all_iff)
  then have "remove_unsafe h = h" by (rule remove_unsafe_id)
  then have 2: "remove_unsafe u = u"
    by (simp add: u_def remove_unsafe_def TAB_def CR_def LF_def)
  have 3: "has_scheme u"
    by (simp add: u_def has_scheme_def contains_iff ascii_alpha_def scheme_chars_def)
  have 4: "map lower_char (takeWhile (\<lambda>c. c \<noteq> CHR '':'') u) = ''https''"
    by (simp add: u_def lower_char_def)
  have 5: "drop (Suc 0) (dropWhile (\<lambda>c. c \<noteq> CHR '':'') u) = v"
    by (simp add: u_def v_def)
  have 6: "split_netloc_checked chk v = Inr (''en.wikipedia.org'', h)"
    by (simp add: v_def split_netloc_checked_def splitnetloc_def netloc_char_def contains_iff h)
  from r have 7: "\<not> contains h CHR ''#''" by (simp add: h contains_iff)
  from c have 8: "\<not> contains h CHR ''?''" "\<not> contains h CHR '';''"
    by (auto simp: contains_iff list_all_iff)
  have "urlparse chk u '''' =
     Inr \<lparr>scheme = ''https'', netloc = ''en.wikipedia.org'', path = h, params = '''',
          query = '''', fragment = ''''\<rparr>"
    by (simp add: urlparse_def urlsplit_def 1 2 3 4 5 6 7 8 Let_def)
  moreover have "WIKI_BASE @ h = u" by (simp add: u_def WIKI_BASE_def)
  ultimately show ?thesis
    using m by (simp add: is_valid_wiki_url_def endswith_def)
qed

section \<open>Facts about the traversal\<close>

subsection \<open>The inner loop\<close>

lemma set_new_links: "set (new_links V ls) = set ls - V"
  by (induction ls arbitrary: V) auto

lemma distinct_new_links: "distinct (new_links V ls)"
  by (induction ls arbitrary: V) (auto simp: set_new_links)

lemma length_new_links: "length (new_links V ls) \<le> length ls"
  by (induction ls arbitrary: V) (auto intro: le_SucI)

lemma visit_links_eq:
  "visit_links lvl links s =
     s\<lparr>visited := visited s \<union> set links,
       all_links := all_links s @ new_links (visited s) links,
       queue := queue s @ map (\<lambda>l. (l, lvl + 1)) (new_links (visited s) links),
       enqueued := enqueued s @ map (\<lambda>l. (l, lvl + 1)) (new_links (visited s) links)\<rparr>"
proof (induction links arbitrary: s)
  case Nil
  show ?case by simp
next
  case (Cons l links)
  show ?case
  proof (cases "l \<in> visited s")
    case True
    then have "visited s \<union> set (l # links) = visited s \<union> set links" by auto
    with True Cons.IH [of s] show ?thesis by simp
  next
    case False
    then show ?thesis by (simp add: Cons.IH)
  qed
qed

subsection \<open>One iteration\<close>

lemma crawl_step_skip:
  "queue s = (url, depth) # rest \<Longrightarrow> crawl_step chk fetch sel depth s = Inr (s\<lparr>queue := rest\<rparr>)"
  by (simp add: crawl_step_def)

lemma crawl_step_fail:
  "queue s = (url, lvl) # rest \<Longrightarrow> lvl \<noteq> depth \<Longrightarrow>
   try_fetch fetch (net s) url = (Inl exc, w) \<Longrightarrow>
   crawl_step chk fetch sel depth s =
     Inr (s\<lparr>queue := rest, stderr := stderr s @ [warning url exc], net := w,
            fetched := fetched s @ [(url, lvl)]\<rparr>)"
  by (simp add: crawl_step_def)

lemma crawl_step_expand:
  "queue s = (url, lvl) # rest \<Longrightarrow> lvl \<noteq> depth \<Longrightarrow>
   try_fetch fetch (net s) url = (Inr resp, w) \<Longrightarrow>
   extract_wiki_links chk sel (resp_text resp) = Inr links \<Longrightarrow>
   crawl_step chk fetch sel depth s =
     Inr (s\<lparr>queue := rest @ map (\<lambda>l. (l, lvl + 1)) (new_links (visited s) links),
            net := w, fetched := fetched s @ [(url, lvl)],
            expanded := expanded s @ [(url, lvl, links)],
            visited := visited s \<union> set links,
            all_links := all_links s @ new_links (visited s) links,
            enqueued := enqueued s @ map (\<lambda>l. (l, lvl + 1)) (new_links (visited s) links)\<rparr>)"
  by (simp add: crawl_step_def visit_links_eq)

lemma crawl_step_abort:
  "queue s = (url, lvl) # rest \<Longrightarrow> lvl \<noteq> depth \<Longrightarrow>
   try_fetch fetch (net s) url = (Inr resp, w) \<Longrightarrow>
   extract_wiki_links chk sel (resp_text resp) = Inl e \<Longrightarrow>
   crawl_step chk fetch sel depth s = Inl e"
  by (simp add: crawl_step_def)

text \<open>An iteration never reads the history variables: on two states that differ in
  them only, it does the same to the variables of the program.\<close>

lemma crawl_step_reads_no_history:
  assumes "program_state s1 = program_state s2"
  shows "map_sum id program_state (crawl_step chk fetch sel depth s1) =
         map_sum id program_state (crawl_step chk fetch sel depth s2)"
  using assms
  by (auto simp: crawl_step_def program_state_def visit_links_eq
      split: list.splits prod.splits sum.splits)

text \<open>The four ways an iteration can go. The last is the exception of the parser, on a
  page that was fetched.\<close>

lemma crawl_step_cases:
  assumes "queue s \<noteq> []"
  obtains
    (skip) url rest where "queue s = (url, depth) # rest"
      "crawl_step chk fetch sel depth s = Inr (s\<lparr>queue := rest\<rparr>)"
  | (fail) url lvl rest exc w where "queue s = (url, lvl) # rest" "lvl \<noteq> depth"
      "try_fetch fetch (net s) url = (Inl exc, w)"
      "crawl_step chk fetch sel depth s =
         Inr (s\<lparr>queue := rest, stderr := stderr s @ [warning url exc], net := w,
                fetched := fetched s @ [(url, lvl)]\<rparr>)"
  | (expand) url lvl rest resp w links where "queue s = (url, lvl) # rest" "lvl \<noteq> depth"
      "try_fetch fetch (net s) url = (Inr resp, w)"
      "extract_wiki_links chk sel (resp_text resp) = Inr links"
      "length links \<le> 10"
      "crawl_step chk fetch sel depth s =
         Inr (s\<lparr>queue := rest @ map (\<lambda>l. (l, lvl + 1)) (new_links (visited s) links),
                net := w, fetched := fetched s @ [(url, lvl)],
                expanded := expanded s @ [(url, lvl, links)],
                visited := visited s \<union> set links,
                all_links := all_links s @ new_links (visited s) links,
                enqueued := enqueued s @ map (\<lambda>l. (l, lvl + 1)) (new_links (visited s) links)\<rparr>)"
  | (abort) url lvl rest resp w where "queue s = (url, lvl) # rest" "lvl \<noteq> depth"
      "try_fetch fetch (net s) url = (Inr resp, w)"
      "sel (resp_text resp) = None"
      "crawl_step chk fetch sel depth s = Inl ParserRejectedMarkup"
proof -
  from assms obtain url lvl rest where q: "queue s = (url, lvl) # rest"
    by (cases "queue s") auto
  show thesis
  proof (cases "lvl = depth")
    case True
    with q crawl_step_skip [of s url depth rest] skip show ?thesis by blast
  next
    case False
    obtain res w where f: "try_fetch fetch (net s) url = (res, w)"
      by (cases "try_fetch fetch (net s) url")
    show ?thesis
    proof (cases res)
      case (Inl exc)
      with q False f crawl_step_fail [where fetch = fetch and s = s, OF q False] fail
      show ?thesis by blast
    next
      case (Inr resp)
      with f have f': "try_fetch fetch (net s) url = (Inr resp, w)" by simp
      show ?thesis
      proof (cases "sel (resp_text resp)")
        case None
        then have "extract_wiki_links chk sel (resp_text resp) = Inl ParserRejectedMarkup"
          by (simp add: extract_wiki_links_def)
        from crawl_step_abort [where fetch = fetch and s = s, OF q False f' this] q False f' None
        show ?thesis by (rule abort [rotated 4])
      next
        case (Some hrefs)
        then obtain links where l: "extract_wiki_links chk sel (resp_text resp) = Inr links"
          "length links \<le> 10"
          using extract_wiki_links_returns by blast
        from crawl_step_expand [where fetch = fetch and s = s, OF q False f' l(1)] q False f' l
        show ?thesis by (rule expand [rotated 5])
      qed
    qed
  qed
qed

text \<open>An iteration raises only what the parser raises.\<close>

lemma crawl_step_raises:
  assumes "queue s \<noteq> []" and "crawl_step chk fetch sel depth s = Inl e"
  shows "e = ParserRejectedMarkup \<and>
         (\<exists>url lvl rest resp n. queue s = (url, lvl) # rest \<and> lvl \<noteq> depth \<and>
            try_fetch fetch (net s) url = (Inr resp, n) \<and> sel (resp_text resp) = None)"
  using assms(1)
proof (cases rule: crawl_step_cases [of s depth chk fetch sel])
  case (abort url lvl rest resp w)
  with assms(2) show ?thesis by auto
qed (use assms(2) in auto)

subsection \<open>Rules for the loop\<close>

lemma crawl_loop_invariant_aux:
  "crawl_loop chk fetch sel depth st = Some r \<Longrightarrow>
   (\<forall>s s'. I s \<longrightarrow> queue s \<noteq> [] \<longrightarrow> crawl_step chk fetch sel depth s = Inr s' \<longrightarrow> I s') \<longrightarrow>
   I st \<longrightarrow>
   (\<exists>t. r = Inr t \<and> I t \<and> queue t = []) \<or>
   (\<exists>s e. r = Inl e \<and> I s \<and> queue s \<noteq> [] \<and> crawl_step chk fetch sel depth s = Inl e)"
proof (induction rule: crawl_loop.raw_induct [rotated 1, consumes 1])
  case (1 loop chk fetch sel depth st r)
  show ?case
  proof (cases "queue st = []")
    case True
    with "1.hyps" show ?thesis by auto
  next
    case False
    show ?thesis
    proof (cases "crawl_step chk fetch sel depth st")
      case (Inl e)
      with False "1.hyps" have "r = Inl e" by simp
      with False Inl show ?thesis by blast
    next
      case (Inr st')
      with False "1.hyps" have "loop chk fetch sel depth st' = Some r" by simp
      from "1.IH" [OF this] False Inr show ?thesis by blast
    qed
  qed
qed

text \<open>Partial correctness: a run that returns has emptied the queue and ends in a state
  with every property that the iterations keep; a run that an exception ends has
  reached, through states with that property, an iteration that raises it.\<close>

lemma crawl_loop_invariant:
  assumes "crawl_loop chk fetch sel depth st = Some (Inr t)"
    and "I st"
    and "\<And>s s'. I s \<Longrightarrow> queue s \<noteq> [] \<Longrightarrow> crawl_step chk fetch sel depth s = Inr s' \<Longrightarrow> I s'"
  shows "I t \<and> queue t = []"
  using crawl_loop_invariant_aux [OF assms(1), of I] assms(2,3) by blast

lemma crawl_loop_abort:
  assumes "crawl_loop chk fetch sel depth st = Some (Inl e)"
    and "I st"
    and "\<And>s s'. I s \<Longrightarrow> queue s \<noteq> [] \<Longrightarrow> crawl_step chk fetch sel depth s = Inr s' \<Longrightarrow> I s'"
  shows "\<exists>s. I s \<and> queue s \<noteq> [] \<and> crawl_step chk fetch sel depth s = Inl e"
  using crawl_loop_invariant_aux [OF assms(1), of I] assms(2,3) by blast

text \<open>Termination: the loop ends when every iteration raises or lowers a measure.\<close>

lemma crawl_loop_terminates:
  assumes "I st"
    and "\<And>s. I s \<Longrightarrow> queue s \<noteq> [] \<Longrightarrow>
           (\<exists>e. crawl_step chk fetch sel depth s = Inl e) \<or>
           (\<exists>s'. crawl_step chk fetch sel depth s = Inr s' \<and> I s' \<and> m s' < (m s :: nat))"
  shows "\<exists>r. crawl_loop chk fetch sel depth st = Some r"
  using assms(1)
proof (induction "m st" arbitrary: st rule: less_induct)
  case less
  show ?case
  proof (cases "queue st = []")
    case True
    then show ?thesis by (subst crawl_loop.simps) simp
  next
    case False
    from assms(2) [OF less.prems False] show ?thesis
    proof
      assume "\<exists>e. crawl_step chk fetch sel depth st = Inl e"
      with False show ?thesis by (subst crawl_loop.simps) auto
    next
      assume "\<exists>s'. crawl_step chk fetch sel depth st = Inr s' \<and> I s' \<and> m s' < m st"
      then obtain s' where
        s': "crawl_step chk fetch sel depth st = Inr s'" "I s'" "m s' < m st" by blast
      from less.hyps [OF s'(3) s'(2)] obtain r where
        "crawl_loop chk fetch sel depth s' = Some r" by blast
      with False s'(1) show ?thesis by (subst crawl_loop.simps) simp
    qed
  qed
qed

subsection \<open>The invariant\<close>

lemma crawl_inv_init: "crawl_inv depth (init_state seed w)"
  by (simp add: crawl_inv_def init_state_def)

lemma crawl_inv_dequeue:
  assumes inv: "crawl_inv depth s" and q: "queue s = (url, lvl) # rest"
    and s': "queue s' = rest" "all_links s' = all_links s" "visited s' = visited s"
      "enqueued s' = enqueued s" "expanded s' = expanded s"
      "fetched s' = (if lvl = depth then fetched s else fetched s @ [(url, lvl)])"
  shows "crawl_inv depth s'"
proof -
  from inv obtain d where d: "enqueued s = d @ queue s"
    "fetched s = filter (\<lambda>e. snd e \<noteq> depth) d"
    unfolding crawl_inv_def by blast
  have "enqueued s' = (d @ [(url, lvl)]) @ queue s'"
    using d q s' by simp
  moreover have "fetched s' = filter (\<lambda>e. snd e \<noteq> depth) (d @ [(url, lvl)])"
    using d s' by simp
  ultimately have "\<exists>dq. enqueued s' = dq @ queue s' \<and> fetched s' = filter (\<lambda>e. snd e \<noteq> depth) dq"
    by blast
  moreover have "\<forall>e \<in> set (queue s'). \<forall>e' \<in> set (enqueued s'). snd e' \<le> snd e + 1"
    using inv q s' unfolding crawl_inv_def by auto
  ultimately show ?thesis
    using inv s' unfolding crawl_inv_def by simp
qed

lemma crawl_inv_append:
  assumes inv: "crawl_inv depth s" and hd: "\<forall>e' \<in> set (enqueued s). snd e' \<le> lvl + 1"
    and ge: "\<forall>e \<in> set (queue s). lvl \<le> snd e"
    and s': "queue s' = queue s @ map (\<lambda>l. (l, lvl + 1)) (new_links (visited s) links)"
      "all_links s' = all_links s @ new_links (visited s) links"
      "visited s' = visited s \<union> set links"
      "enqueued s' = enqueued s @ map (\<lambda>l. (l, lvl + 1)) (new_links (visited s) links)"
      "fetched s' = fetched s" "expanded s' = expanded s @ [(url, lvl, links)]"
  shows "crawl_inv depth s'"
proof -
  let ?new = "new_links (visited s) links"
  let ?N = "map (\<lambda>l. (l, lvl + 1)) ?new"
  from inv have old: "distinct (all_links s)" "set (all_links s) = visited s"
    "map fst (enqueued s) = all_links s" "sorted (map snd (enqueued s))"
    "\<forall>e \<in> set (queue s). \<forall>e' \<in> set (enqueued s). snd e' \<le> snd e + 1"
    unfolding crawl_inv_def by blast+
  from inv obtain d where d: "enqueued s = d @ queue s"
    "fetched s = filter (\<lambda>e. snd e \<noteq> depth) d"
    unfolding crawl_inv_def by blast
  have 1: "distinct (all_links s')"
    using old(1,2) by (auto simp: s' distinct_new_links set_new_links)
  have 2: "set (all_links s') = visited s'"
    using old(2) by (auto simp: s' set_new_links)
  have 3: "map fst (enqueued s') = all_links s'"
    using old(3) by (simp add: s' comp_def)
  have 4: "\<exists>dq. enqueued s' = dq @ queue s' \<and> fetched s' = filter (\<lambda>e. snd e \<noteq> depth) dq"
    using d by (auto simp: s')
  have 5: "sorted (map snd (enqueued s'))"
    using old(4) hd by (auto simp: s' sorted_append comp_def map_replicate_const)
  have 6: "\<forall>e \<in> set (queue s'). \<forall>e' \<in> set (enqueued s'). snd e' \<le> snd e + 1"
  proof (intro ballI)
    fix e e' assume e: "e \<in> set (queue s')" and e': "e' \<in> set (enqueued s')"
    from e have "lvl \<le> snd e" using ge by (auto simp: s')
    moreover from e' have "snd e' \<le> lvl + 1" using hd by (auto simp: s')
    ultimately show "snd e' \<le> snd e + 1" by simp
  qed
  have known: "\<exists>k. k \<le> lvl + 1 \<and> (l, k) \<in> set (enqueued s')" if "l \<in> set links" for l
  proof (cases "l \<in> visited s")
    case True
    with old(2,3) have "l \<in> fst ` set (enqueued s)" by (metis set_map)
    then obtain k where "(l, k) \<in> set (enqueued s)" by auto
    with hd show ?thesis by (auto simp: s')
  next
    case False
    with that have "l \<in> set ?new" by (simp add: set_new_links)
    then have "(l, lvl + 1) \<in> set (enqueued s')" by (auto simp: s')
    then show ?thesis by blast
  qed
  have 7: "\<forall>(u, lv, ls) \<in> set (expanded s'). \<forall>l \<in> set ls. \<exists>k. k \<le> lv + 1 \<and> (l, k) \<in> set (enqueued s')"
  proof -
    from inv have "\<forall>(u, lv, ls) \<in> set (expanded s). \<forall>l \<in> set ls. \<exists>k. k \<le> lv + 1 \<and> (l, k) \<in> set (enqueued s)"
      unfolding crawl_inv_def by blast
    then have "\<forall>(u, lv, ls) \<in> set (expanded s). \<forall>l \<in> set ls. \<exists>k. k \<le> lv + 1 \<and> (l, k) \<in> set (enqueued s')"
      by (fastforce simp: s')
    with known show ?thesis by (auto simp: s')
  qed
  from 1 2 3 4 5 6 7 show ?thesis unfolding crawl_inv_def by blast
qed

lemma crawl_inv_step:
  assumes inv: "crawl_inv depth s" and ne: "queue s \<noteq> []"
    and step: "crawl_step chk fetch sel depth s = Inr s'"
  shows "crawl_inv depth s'"
  using ne
proof (cases rule: crawl_step_cases [of s depth chk fetch sel])
  case (skip url rest)
  with step have "s' = s\<lparr>queue := rest\<rparr>" by simp
  then show ?thesis
    using crawl_inv_dequeue [OF inv skip(1), of s'] by simp
next
  case (fail url lvl rest exc w)
  with step have "s' = s\<lparr>queue := rest, stderr := stderr s @ [warning url exc], net := w,
                fetched := fetched s @ [(url, lvl)]\<rparr>" by simp
  then show ?thesis
    using crawl_inv_dequeue [OF inv fail(1), of s'] fail(2) by simp
next
  case (expand url lvl rest resp w links)
  define s1 where "s1 = s\<lparr>queue := rest, fetched := fetched s @ [(url, lvl)]\<rparr>"
  have inv1: "crawl_inv depth s1"
    using crawl_inv_dequeue [OF inv expand(1), of s1] expand(2) by (simp add: s1_def)
  from inv obtain d where d: "enqueued s = d @ queue s"
    unfolding crawl_inv_def by blast
  from inv have "sorted (map snd (enqueued s))"
    and b: "\<forall>e \<in> set (queue s). \<forall>e' \<in> set (enqueued s). snd e' \<le> snd e + 1"
    unfolding crawl_inv_def by blast+
  then have ge: "\<forall>e \<in> set (queue s1). lvl \<le> snd e"
    using d expand(1) by (auto simp: s1_def sorted_append)
  from b expand(1) have hd: "\<forall>e' \<in> set (enqueued s1). snd e' \<le> lvl + 1"
    by (auto simp: s1_def)
  from step expand(6) have s': "s' = s\<lparr>queue := rest @ map (\<lambda>l. (l, lvl + 1)) (new_links (visited s) links),
                net := w, fetched := fetched s @ [(url, lvl)],
            expanded := expanded s @ [(url, lvl, links)],
                visited := visited s \<union> set links,
                all_links := all_links s @ new_links (visited s) links,
                enqueued := enqueued s @ map (\<lambda>l. (l, lvl + 1)) (new_links (visited s) links)\<rparr>"
    by simp
  show ?thesis
    by (rule crawl_inv_append [OF inv1 hd ge, of s' links url]) (simp_all add: s' s1_def)
next
  case (abort url lvl rest resp w)
  with step show ?thesis by simp
qed

subsection \<open>The work left decreases\<close>

lemma tree_size_pos: "0 < tree_size k"
  by (induction k) auto

lemma bounded_inv_init: "0 \<le> depth \<Longrightarrow> bounded_inv depth (init_state seed w)"
  by (simp add: bounded_inv_def init_state_def work_def)

lemma work_append:
  "queue s' = rest @ map (\<lambda>l. (l, lvl + 1)) new \<Longrightarrow>
   work depth s' = sum_list (map (\<lambda>e. tree_size (nat (depth - snd e))) rest) +
                   length new * tree_size (nat (depth - (lvl + 1)))"
  by (simp add: work_def comp_def sum_list_triv)

lemma bounded_inv_step:
  assumes inv: "bounded_inv depth s" and ne: "queue s \<noteq> []"
  shows "(\<exists>e. crawl_step chk fetch sel depth s = Inl e) \<or>
         (\<exists>s'. crawl_step chk fetch sel depth s = Inr s' \<and> bounded_inv depth s' \<and>
               work depth s' < work depth s)"
  using ne
proof (cases rule: crawl_step_cases [of s depth chk fetch sel])
  case (skip url rest)
  let ?s' = "s\<lparr>queue := rest\<rparr>"
  have "work depth s = Suc (work depth ?s')"
    using skip(1) by (simp add: work_def)
  with inv skip(1) have "bounded_inv depth ?s' \<and> work depth ?s' < work depth s"
    by (auto simp: bounded_inv_def)
  with skip(2) show ?thesis by blast
next
  case (fail url lvl rest exc w)
  let ?s' = "s\<lparr>queue := rest, stderr := stderr s @ [warning url exc], net := w,
                fetched := fetched s @ [(url, lvl)]\<rparr>"
  have "work depth s = tree_size (nat (depth - lvl)) + work depth ?s'"
    using fail(1) by (simp add: work_def)
  with inv fail(1) tree_size_pos [of "nat (depth - lvl)"]
  have "bounded_inv depth ?s' \<and> work depth ?s' < work depth s"
    by (auto simp: bounded_inv_def)
  with fail(4) show ?thesis by blast
next
  case (expand url lvl rest resp w links)
  let ?new = "new_links (visited s) links"
  let ?s' = "s\<lparr>queue := rest @ map (\<lambda>l. (l, lvl + 1)) ?new,
                net := w, fetched := fetched s @ [(url, lvl)],
            expanded := expanded s @ [(url, lvl, links)],
                visited := visited s \<union> set links,
                all_links := all_links s @ ?new,
                enqueued := enqueued s @ map (\<lambda>l. (l, lvl + 1)) ?new\<rparr>"
  define k where "k = nat (depth - (lvl + 1))"
  define r where "r = sum_list (map (\<lambda>e. tree_size (nat (depth - snd e))) rest)"
  from inv expand(1,2) have lv: "0 \<le> lvl" "lvl < depth"
    by (auto simp: bounded_inv_def)
  then have "nat (depth - lvl) = Suc k" by (simp add: k_def)
  then have w: "work depth s = 10 * tree_size k + 1 + r"
    using expand(1) by (simp add: work_def r_def)
  have w': "work depth ?s' = r + length ?new * tree_size k"
    unfolding r_def k_def by (rule work_append) simp
  have "length ?new \<le> 10"
    using length_new_links [of "visited s" links] expand(5) by simp
  then have "length ?new * tree_size k \<le> 10 * tree_size k"
    by (rule mult_le_mono1)
  with w w' have less: "work depth ?s' < work depth s" by linarith
  have levels: "list_all (\<lambda>e. 0 \<le> snd e \<and> snd e \<le> depth) (queue ?s')"
    using inv expand(1) lv by (auto simp: bounded_inv_def list_all_iff)
  have "length (enqueued s) + work depth s \<le> tree_size (nat depth) + length (queue s)"
    using inv by (simp add: bounded_inv_def)
  moreover have "length (enqueued ?s') = length (enqueued s) + length ?new"
    "length (queue ?s') = length rest + length ?new" "length (queue s) = Suc (length rest)"
    using expand(1) by simp_all
  moreover note w w' \<open>length ?new * tree_size k \<le> 10 * tree_size k\<close>
  ultimately
  have "length (enqueued ?s') + work depth ?s' \<le> tree_size (nat depth) + length (queue ?s')"
    by linarith
  with levels have "bounded_inv depth ?s'"
    unfolding bounded_inv_def by blast
  with less expand(6) show ?thesis by blast
next
  case (abort url lvl rest resp w)
  then show ?thesis by blast
qed

subsection \<open>Whole runs\<close>


lemma crawl_run_final:
  assumes "crawl_run chk fetch sel w seed depth = Some (Inr t)"
  shows "crawl_inv depth t \<and> queue t = []"
  using assms unfolding crawl_run_def
  by (rule crawl_loop_invariant) (auto intro: crawl_inv_init crawl_inv_step)


text \<open>For a depth that is not negative the loop ends, with a result or with an
  exception.\<close>

lemma crawl_run_terminates:
  assumes "0 \<le> depth"
  shows "\<exists>r. crawl_run chk fetch sel w seed depth = Some r"
  unfolding crawl_run_def
proof (rule crawl_loop_terminates [where I = "bounded_inv depth" and m = "work depth"])
  show "bounded_inv depth (init_state seed w)"
    using assms by (rule bounded_inv_init)
next
  fix s :: "'a crawl_state"
  assume "bounded_inv depth s" "queue s \<noteq> []"
  then show "(\<exists>e. crawl_step chk fetch sel depth s = Inl e) \<or>
         (\<exists>s'. crawl_step chk fetch sel depth s = Inr s' \<and> bounded_inv depth s' \<and>
               work depth s' < work depth s)"
    by (rule bounded_inv_step)
qed

text \<open>A run ends with an exception only when the parser has rejected a page.\<close>

lemma crawl_run_raises:
  assumes "crawl_run chk fetch sel w seed depth = Some (Inl e)"
  shows "e = ParserRejectedMarkup \<and>
         (\<exists>(s :: 'a crawl_state) url lvl rest resp n.
            queue s = (url, lvl) # rest \<and> lvl \<noteq> depth \<and>
            try_fetch fetch (net s) url = (Inr resp, n) \<and> sel (resp_text resp) = None)"
proof -
  have "\<exists>s :: 'a crawl_state. True \<and> queue s \<noteq> [] \<and> crawl_step chk fetch sel depth s = Inl e"
    using assms unfolding crawl_run_def by (rule crawl_loop_abort) simp_all
  then obtain s :: "'a crawl_state" where
    "queue s \<noteq> []" "crawl_step chk fetch sel depth s = Inl e" by blast
  from crawl_step_raises [OF this] show ?thesis by blast
qed

lemma crawl_run_returns:
  assumes "0 \<le> depth" and "\<And>html. sel html \<noteq> None"
  shows "\<exists>t. crawl_run chk fetch sel w seed depth = Some (Inr t)"
proof -
  obtain r where r: "crawl_run chk fetch sel w seed depth = Some r"
    using crawl_run_terminates [OF assms(1), of chk fetch sel w seed] by blast
  show ?thesis
  proof (cases r)
    case (Inl e)
    with r crawl_run_raises [of chk fetch sel w seed depth e] assms(2) show ?thesis by blast
  next
    case (Inr t)
    with r show ?thesis by blast
  qed
qed

lemma crawl_run_seed_first:
  assumes "crawl_run chk fetch sel w seed depth = Some (Inr t)"
  shows "\<exists>es. enqueued t = (seed, 0) # es"
proof -
  let ?I = "\<lambda>s :: 'a crawl_state. \<exists>es. enqueued s = (seed, 0) # es"
  have "?I s'" if "?I s" "queue s \<noteq> []" "crawl_step chk fetch sel depth s = Inr s'" for s s'
    using that(2)
    by (cases rule: crawl_step_cases [of s depth chk fetch sel]) (use that(1,3) in auto)
  moreover have "?I (init_state seed w)" by (simp add: init_state_def)
  ultimately have "?I t \<and> queue t = []"
    using crawl_loop_invariant [where I = ?I, OF assms [unfolded crawl_run_def]]
    by blast
  then show ?thesis by simp
qed


lemma crawl_eq:
  "crawl chk fetch sel w seed depth = Some (Inr R) \<longleftrightarrow>
     (\<exists>t. crawl_run chk fetch sel w seed depth = Some (Inr t) \<and> R = all_links t)"
  by (auto simp: crawl_def split: option.splits sum.splits)



text \<open>On a web whose pages write their article links plainly, every URL of the result
  is a valid article URL.\<close>

lemma extract_wiki_links_plain_valid:
  assumes "extract_wiki_links chk sel html = Inr links"
    and "\<And>hrefs h. sel html = Some hrefs \<Longrightarrow> h \<in> set hrefs \<Longrightarrow> WIKI_PATH_RE_match h \<Longrightarrow>
           plain_href h"
    and "l \<in> set links"
  shows "is_valid_wiki_url chk l = Inr True"
proof -
  from assms(1) obtain hrefs where s: "sel html = Some hrefs"
    and e: "extract_loop chk hrefs [] {} = Inr links"
    by (auto simp: extract_wiki_links_def split: option.splits)
  from e assms(3) obtain h where h: "h \<in> set hrefs" "WIKI_PATH_RE_match h"
    "urljoin chk WIKI_BASE h = Inr l"
    using extract_loop_sources [of chk hrefs "[]" "{}" links l] by auto
  from assms(2) [OF s h(1,2)] have p: "plain_href h" .
  with h(3) have "l = WIKI_BASE @ h" by (simp add: urljoin_plain)
  with p show ?thesis by (simp add: is_valid_plain)
qed

lemma crawl_plain_valid:
  assumes run: "crawl_run chk fetch sel w seed depth = Some (Inr t)"
    and seed: "is_valid_wiki_url chk seed = Inr True"
    and plain: "\<And>html hrefs h. sel html = Some hrefs \<Longrightarrow> h \<in> set hrefs \<Longrightarrow>
                  WIKI_PATH_RE_match h \<Longrightarrow> plain_href h"
    and u: "u \<in> set (all_links t)"
  shows "is_valid_wiki_url chk u = Inr True"
proof -
  let ?I = "\<lambda>s :: 'a crawl_state. \<forall>u \<in> set (all_links s). is_valid_wiki_url chk u = Inr True"
  have step: "?I s'" if "?I s" "queue s \<noteq> []" "crawl_step chk fetch sel depth s = Inr s'" for s s'
    using that(2)
  proof (cases rule: crawl_step_cases [of s depth chk fetch sel])
    case (skip url rest)
    with that(1,3) show ?thesis by auto
  next
    case (fail url lvl rest exc w)
    with that(1,3) show ?thesis by auto
  next
    case (expand url lvl rest resp w links)
    have "is_valid_wiki_url chk l = Inr True" if "l \<in> set links" for l
      using expand(4) plain that by (rule extract_wiki_links_plain_valid)
    with that(1,3) expand(6) show ?thesis by (auto simp: set_new_links)
  next
    case (abort url lvl rest resp w)
    with that(3) show ?thesis by simp
  qed
  have "?I (init_state seed w)" using seed by (simp add: init_state_def)
  with step have "?I t \<and> queue t = []"
    using crawl_loop_invariant [where I = ?I, OF run [unfolded crawl_run_def]] by blast
  with u show ?thesis by simp
qed

subsection \<open>The traversal by levels\<close>

lemma levels_from_empty:
  "levels_from chk fetch sel n [] V w = Inr (replicate n [])"
  by (induction n) simp_all

lemma with_levels_empty: "with_levels k (replicate n []) = []"
  by (induction n arbitrary: k) simp_all

lemma map_fst_with_levels: "map fst (with_levels k ls) = concat ls"
  by (induction ls arbitrary: k) (simp_all add: comp_def)

lemma remaining_empty: "remaining chk fetch sel depth L [] [] V w = Inr []"
  by (simp add: remaining_def levels_from_empty with_levels_empty)

lemma remaining_shift:
  assumes "L < depth"
  shows "remaining chk fetch sel depth L [] found V w =
         remaining chk fetch sel depth (L + 1) found [] V w"
proof (cases "depth \<le> L + 1")
  case True
  with assms have "nat (depth - L - 1) = 0" by simp
  with True assms show ?thesis by (simp add: remaining_def)
next
  case False
  then have "nat (depth - L - 1) = Suc (nat (depth - (L + 1) - 1))" by simp
  with False assms show ?thesis
    by (simp add: remaining_def add.commute split: sum.splits prod.splits)
qed

lemma remaining_fail:
  assumes "L < depth" "try_fetch fetch w u = (Inl exc, w')"
  shows "remaining chk fetch sel depth L (u # us) found V w =
         remaining chk fetch sel depth L us found V w'"
  using assms by (simp add: remaining_def expand_one_def split: sum.splits prod.splits)

lemma remaining_abort:
  assumes "L < depth" "try_fetch fetch w u = (Inr resp, w')"
    "extract_wiki_links chk sel (resp_text resp) = Inl e"
  shows "remaining chk fetch sel depth L (u # us) found V w = Inl e"
  using assms by (simp add: remaining_def expand_one_def)

lemma remaining_expand:
  assumes "L < depth" "try_fetch fetch w u = (Inr resp, w')"
    "extract_wiki_links chk sel (resp_text resp) = Inr links"
  shows "remaining chk fetch sel depth L (u # us) found V w =
         map_sum id ((@) (map (\<lambda>u. (u, L + 1)) (new_links V links)))
           (remaining chk fetch sel depth L us (found @ new_links V links) (V \<union> set links) w')"
  using assms by (simp add: remaining_def expand_one_def split: sum.splits prod.splits)

text \<open>The queue of a state of the invariant that is not empty has a first page in the
  current level.\<close>

lemma level_inv_head:
  assumes "level_inv chk fetch sel depth final s" "queue s \<noteq> []"
  obtains L u us found where "0 \<le> L" "L \<le> depth" "L = depth \<longrightarrow> found = []"
    "queue s = (u, L) # map (\<lambda>u. (u, L)) us @ map (\<lambda>u. (u, L + 1)) found"
    "final = map_sum id ((@) (enqueued s))
               (remaining chk fetch sel depth L (u # us) found (visited s) (net s))"
proof -
  from assms(1) obtain L us found where
    i: "0 \<le> L" "L \<le> depth" "L = depth \<longrightarrow> found = []"
    "queue s = map (\<lambda>u. (u, L)) us @ map (\<lambda>u. (u, L + 1)) found"
    "final = map_sum id ((@) (enqueued s))
               (remaining chk fetch sel depth L us found (visited s) (net s))"
    unfolding level_inv_def by blast
  show thesis
  proof (cases us)
    case (Cons u us')
    with i show ?thesis by (intro that [of L found u us']) simp_all
  next
    case Nil
    with i(4) assms(2) obtain u us' where f: "found = u # us'" by (cases found) auto
    with i(3) i(2) have lt: "L < depth" by auto
    from Nil i(5) remaining_shift [OF lt, of chk fetch sel found "visited s" "net s"]
    have "final = map_sum id ((@) (enqueued s))
               (remaining chk fetch sel depth (L + 1) (u # us') [] (visited s) (net s))"
      using f by simp
    moreover from Nil i(4) f have "queue s = (u, L + 1) # map (\<lambda>u. (u, L + 1)) us' @
        map (\<lambda>u. (u, L + 1 + 1)) []" by simp
    ultimately show ?thesis using i(1) lt by (intro that [of "L + 1" "[]" u us']) simp_all
  qed
qed

lemma level_inv_init:
  assumes "0 \<le> depth"
  shows "level_inv chk fetch sel depth
           (map_sum id (with_levels 0) (crawl_by_levels chk fetch sel w seed depth))
           (init_state seed w)"
proof -
  have "map_sum id (with_levels 0) (crawl_by_levels chk fetch sel w seed depth) =
        map_sum id ((@) [(seed, 0)]) (remaining chk fetch sel depth 0 [seed] [] {seed} w)"
  proof (cases "depth = 0")
    case True
    then show ?thesis by (simp add: crawl_by_levels_def remaining_def)
  next
    case False
    with assms have "nat depth = Suc (nat (depth - 0 - 1))" by simp
    with False assms show ?thesis
      by (simp add: crawl_by_levels_def remaining_def split: sum.splits prod.splits)
  qed
  then show ?thesis
    unfolding level_inv_def using assms
    by (intro exI [of _ 0] exI [of _ "[seed]"] exI [of _ "[]"]) (simp add: init_state_def)
qed

lemma level_inv_final:
  assumes "level_inv chk fetch sel depth final s" "queue s = []"
  shows "final = Inr (enqueued s)"
  using assms by (auto simp: level_inv_def remaining_empty)

lemma map_sum_append:
  "map_sum id ((@) xs) (map_sum id ((@) ys) r) = map_sum id ((@) (xs @ ys)) r"
  by (cases r) simp_all

lemma level_inv_step:
  assumes inv: "level_inv chk fetch sel depth final s" and ne: "queue s \<noteq> []"
    and step: "crawl_step chk fetch sel depth s = Inr s'"
  shows "level_inv chk fetch sel depth final s'"
  using inv ne
proof (cases rule: level_inv_head)
  case (1 L u us found)
  show ?thesis
  proof (cases "L = depth")
    case True
    with 1 have q: "queue s = (u, depth) # map (\<lambda>u. (u, L)) us" by simp
    from crawl_step_skip [OF q, of chk fetch sel] step
    have s': "s' = s\<lparr>queue := map (\<lambda>u. (u, L)) us\<rparr>" by simp
    from True 1(5) have "final = map_sum id ((@) (enqueued s'))
               (remaining chk fetch sel depth L us [] (visited s') (net s'))"
      by (simp add: s' remaining_def)
    with 1(1,2) s' show ?thesis
      unfolding level_inv_def
      by (intro exI [of _ L] exI [of _ us] exI [of _ "[]"]) simp
  next
    case False
    with 1(2) have lt: "L < depth" by simp
    let ?rest = "map (\<lambda>u. (u, L)) us @ map (\<lambda>u. (u, L + 1)) found"
    have q: "queue s = (u, L) # ?rest" by (rule 1(4))
    obtain res n where f: "try_fetch fetch (net s) u = (res, n)"
      by (cases "try_fetch fetch (net s) u")
    show ?thesis
    proof (cases res)
      case (Inl exc)
      with f have f': "try_fetch fetch (net s) u = (Inl exc, n)" by simp
      from crawl_step_fail [where fetch = fetch and s = s, OF q False f', of chk sel] step
      have s': "s' = s\<lparr>queue := ?rest, stderr := stderr s @ [warning u exc], net := n,
            fetched := fetched s @ [(u, L)]\<rparr>" by simp
      from 1(5) remaining_fail [OF lt f', of chk sel us found "visited s"]
      have "final = map_sum id ((@) (enqueued s'))
               (remaining chk fetch sel depth L us found (visited s') (net s'))"
        by (simp add: s')
      with 1(1,2,3) s' show ?thesis
        unfolding level_inv_def
        by (intro exI [of _ L] exI [of _ us] exI [of _ found]) simp
    next
      case (Inr resp)
      with f have f': "try_fetch fetch (net s) u = (Inr resp, n)" by simp
      show ?thesis
      proof (cases "extract_wiki_links chk sel (resp_text resp)")
        case e: (Inl e)
        from crawl_step_abort [where fetch = fetch and s = s, OF q False f' e] step
        show ?thesis by simp
      next
        case e: (Inr links)
        let ?new = "new_links (visited s) links"
        from crawl_step_expand [where fetch = fetch and s = s, OF q False f' e] step
        have s': "s' = s\<lparr>queue := ?rest @ map (\<lambda>l. (l, L + 1)) ?new,
            net := n, fetched := fetched s @ [(u, L)],
            expanded := expanded s @ [(u, L, links)],
            visited := visited s \<union> set links,
            all_links := all_links s @ ?new,
            enqueued := enqueued s @ map (\<lambda>l. (l, L + 1)) ?new\<rparr>" by simp
        from 1(5) remaining_expand [OF lt f' e, of us found "visited s"]
        have "final = map_sum id ((@) (enqueued s'))
               (remaining chk fetch sel depth L us (found @ ?new) (visited s') (net s'))"
          by (simp add: s' map_sum_append)
        moreover have "queue s' = map (\<lambda>u. (u, L)) us @ map (\<lambda>u. (u, L + 1)) (found @ ?new)"
          by (simp add: s')
        ultimately show ?thesis
          unfolding level_inv_def using 1(1,2) lt
          by (intro exI [of _ L] exI [of _ us] exI [of _ "found @ ?new"]) simp
      qed
    qed
  qed
qed

lemma level_inv_abort:
  assumes inv: "level_inv chk fetch sel depth final s" and ne: "queue s \<noteq> []"
    and step: "crawl_step chk fetch sel depth s = Inl e"
  shows "final = Inl e"
  using inv ne
proof (cases rule: level_inv_head)
  case (1 L u us found)
  let ?rest = "map (\<lambda>u. (u, L)) us @ map (\<lambda>u. (u, L + 1)) found"
  have q: "queue s = (u, L) # ?rest" by (rule 1(4))
  have ne: "L \<noteq> depth"
  proof
    assume "L = depth"
    with q crawl_step_skip [of s u depth ?rest chk fetch sel] step show False by simp
  qed
  with 1(2) have lt: "L < depth" by simp
  obtain res n where f: "try_fetch fetch (net s) u = (res, n)"
    by (cases "try_fetch fetch (net s) u")
  show ?thesis
  proof (cases res)
    case (Inl exc)
    with f have f': "try_fetch fetch (net s) u = (Inl exc, n)" by simp
    from crawl_step_fail [where fetch = fetch and s = s, OF q ne f', of chk sel] step
    show ?thesis by simp
  next
    case (Inr resp)
    with f have f': "try_fetch fetch (net s) u = (Inr resp, n)" by simp
    show ?thesis
    proof (cases "extract_wiki_links chk sel (resp_text resp)")
      case e: (Inl e')
      from crawl_step_abort [where fetch = fetch and s = s, OF q ne f' e] step
      have "e' = e" by simp
      with 1(5) remaining_abort [OF lt f' e, of us found "visited s"] show ?thesis by simp
    next
      case e: (Inr links)
      from crawl_step_expand [where fetch = fetch and s = s, OF q ne f' e] step
      show ?thesis by simp
    qed
  qed
qed

text \<open>The refinement: the history of the queue is the traversal by levels, each URL
  with the number of its level, and an exception ends both.\<close>

lemma crawl_run_by_levels:
  assumes "0 \<le> depth"
  shows "map_option (map_sum id enqueued) (crawl_run chk fetch sel w seed depth) =
         Some (map_sum id (with_levels 0) (crawl_by_levels chk fetch sel w seed depth))"
proof -
  let ?final = "map_sum id (with_levels 0) (crawl_by_levels chk fetch sel w seed depth)"
  let ?I = "level_inv chk fetch sel depth ?final"
  have init: "?I (init_state seed w)" using assms by (rule level_inv_init)
  have keep: "\<And>s s'. ?I s \<Longrightarrow> queue s \<noteq> [] \<Longrightarrow> crawl_step chk fetch sel depth s = Inr s' \<Longrightarrow>
      ?I s'"
    by (rule level_inv_step)
  obtain r where r: "crawl_run chk fetch sel w seed depth = Some r"
    using crawl_run_terminates [OF assms, of chk fetch sel w seed] by blast
  show ?thesis
  proof (cases r)
    case (Inr t)
    with r have "crawl_loop chk fetch sel depth (init_state seed w) = Some (Inr t)"
      by (simp add: crawl_run_def)
    from crawl_loop_invariant [where I = ?I, OF this init] keep
    have "?I t \<and> queue t = []" by blast
    then have "?final = Inr (enqueued t)" using level_inv_final by blast
    with r Inr show ?thesis by simp
  next
    case (Inl e)
    with r have "crawl_loop chk fetch sel depth (init_state seed w) = Some (Inl e)"
      by (simp add: crawl_run_def)
    from crawl_loop_abort [where I = ?I, OF this init] keep
    obtain s where "?I s" "queue s \<noteq> []" "crawl_step chk fetch sel depth s = Inl e" by blast
    then have "?final = Inl e" by (rule level_inv_abort)
    with r Inl show ?thesis by simp
  qed
qed

lemma crawl_by_levels_result:
  assumes "0 \<le> depth"
  shows "crawl chk fetch sel w seed depth =
         Some (map_sum id concat (crawl_by_levels chk fetch sel w seed depth))"
proof -
  obtain r where r: "crawl_run chk fetch sel w seed depth = Some r"
    using crawl_run_terminates [OF assms, of chk fetch sel w seed] by blast
  show ?thesis
  proof (cases r)
    case (Inr t)
    from crawl_run_final [of chk fetch sel w seed depth t] r Inr
    have "all_links t = map fst (enqueued t)" by (simp add: crawl_inv_def)
    moreover from crawl_run_by_levels [OF assms, of chk fetch sel w seed] r Inr
    obtain ls where "crawl_by_levels chk fetch sel w seed depth = Inr ls"
      "enqueued t = with_levels 0 ls"
      by (cases "crawl_by_levels chk fetch sel w seed depth") auto
    ultimately show ?thesis using r Inr by (simp add: crawl_def map_fst_with_levels)
  next
    case (Inl e)
    from crawl_run_by_levels [OF assms, of chk fetch sel w seed] r Inl
    have "crawl_by_levels chk fetch sel w seed depth = Inl e"
      by (cases "crawl_by_levels chk fetch sel w seed depth") auto
    with r Inl show ?thesis by (simp add: crawl_def)
  qed
qed

subsection \<open>The example runs\<close>

lemma zoo_run:
  "crawl_run (\<lambda>_. True) (example_fetch zoo) (example_select zoo) () Cat 2 = Some (Inr zoo_final)"
  by code_simp

lemma zoo_crawl:
  "crawl (\<lambda>_. True) (example_fetch zoo) (example_select zoo) () Cat 2 =
     Some (Inr [Cat, Dog, Lion, Wolf, Fox])"
  by (simp add: crawl_def zoo_run) (simp add: zoo_final_def)


section \<open>The claims\<close>

subsection \<open>URL validation\<close>

text \<open>
  C3, as amended. \<open>is_valid_wiki_url\<close> returns false for the empty string. Whenever
  \<open>urlparse\<close> returns a parse \<open>p\<close> of the URL, the function returns false if the scheme
  of \<open>p\<close> is neither \<open>http\<close> nor \<open>https\<close>, if the netloc of \<open>p\<close> does not end with
  \<open>wikipedia.org\<close>, or if the path of \<open>p\<close> contains a colon. The path of \<open>p\<close> never
  contains a hash: \<open>urlparse\<close> has cut the fragment off before the pattern is tried, and
  a fragment added to a URL never changes the answer.
\<close>

theorem is_valid_wiki_url_rejects:
  "is_valid_wiki_url chk '''' = Inr False \<and>
   (\<forall>p. urlparse chk url '''' = Inr p \<longrightarrow>
      CHR ''#'' \<notin> set (path p) \<and>
      (scheme p \<notin> set [''http'', ''https''] \<or>
       \<not> endswith (netloc p) ''wikipedia.org'' \<or>
       CHR '':'' \<in> set (path p)
         \<longrightarrow> is_valid_wiki_url chk url = Inr False)) \<and>
   is_valid_wiki_url chk (url @ CHR ''#'' # frag) = is_valid_wiki_url chk url"
proof (intro conjI allI impI)
  show "is_valid_wiki_url chk '''' = Inr False"
    by (simp add: is_valid_wiki_url_def urlparse_def urlsplit_def split_netloc_checked_def
        has_scheme_def contains_def lstrip_c0_def strip_c0_def remove_unsafe_def uses_params_def
        Let_def)
next
  fix p
  assume p: "urlparse chk url '''' = Inr p"
  show "CHR ''#'' \<notin> set (path p)"
    using p by (rule urlparse_path_no_hash)
  assume "scheme p \<notin> set [''http'', ''https''] \<or>
       \<not> endswith (netloc p) ''wikipedia.org'' \<or> CHR '':'' \<in> set (path p)"
  moreover have "\<not> WIKI_PATH_RE_match (path p)" if "CHR '':'' \<in> set (path p)"
    using that match_no_colon by blast
  ultimately show "is_valid_wiki_url chk url = Inr False"
    using p by (auto simp: is_valid_wiki_url_def)
next
  show "is_valid_wiki_url chk (url @ CHR ''#'' # frag) = is_valid_wiki_url chk url"
    by (rule is_valid_fragment)
qed

theorem is_valid_wiki_url_rejects_witness:
  "is_valid_wiki_url (\<lambda>_. True) ''ftp://en.wikipedia.org/wiki/Cat'' = Inr False \<and>
   is_valid_wiki_url (\<lambda>_. True) ''https://example.org/wiki/Cat'' = Inr False \<and>
   is_valid_wiki_url (\<lambda>_. True) ''https://en.wikipedia.org/wiki/File:Cat.jpg'' = Inr False"
proof -
  have 1: "urlparse (\<lambda>_. True) ''ftp://en.wikipedia.org/wiki/Cat'' '''' =
      Inr \<lparr>scheme = ''ftp'', netloc = ''en.wikipedia.org'', path = ''/wiki/Cat'',
           params = '''', query = '''', fragment = ''''\<rparr>"
    by code_simp
  have 2: "urlparse (\<lambda>_. True) ''https://example.org/wiki/Cat'' '''' =
      Inr \<lparr>scheme = ''https'', netloc = ''example.org'', path = ''/wiki/Cat'',
           params = '''', query = '''', fragment = ''''\<rparr>"
    by code_simp
  have 3: "urlparse (\<lambda>_. True) ''https://en.wikipedia.org/wiki/File:Cat.jpg'' '''' =
      Inr \<lparr>scheme = ''https'', netloc = ''en.wikipedia.org'', path = ''/wiki/File:Cat.jpg'',
           params = '''', query = '''', fragment = ''''\<rparr>"
    by code_simp
  show ?thesis
    using is_valid_wiki_url_rejects [of "\<lambda>_. True" "''ftp://en.wikipedia.org/wiki/Cat''"]
      is_valid_wiki_url_rejects [of "\<lambda>_. True" "''https://example.org/wiki/Cat''"]
      is_valid_wiki_url_rejects [of "\<lambda>_. True" "''https://en.wikipedia.org/wiki/File:Cat.jpg''"]
    by (simp add: 1 2 3 endswith_def)
qed

text \<open>The claim as stated fails: a URL with a fragment and a URL on a host that merely
  ends with the letters \<open>wikipedia.org\<close> are accepted, and on a URL with an unmatched
  bracket the function raises instead of returning false.\<close>

theorem is_valid_wiki_url_rejects_counterexample:
  "is_valid_wiki_url (\<lambda>_. True) ''https://en.wikipedia.org/wiki/Cat#History'' = Inr True \<and>
   is_valid_wiki_url (\<lambda>_. True) ''https://notwikipedia.org/wiki/Cat'' = Inr True \<and>
   is_valid_wiki_url (\<lambda>_. True) ''ftp://['' = Inl ValueError"
  by code_simp

text \<open>
  C4. \<open>is_valid_wiki_url\<close> does not return for every input. The netloc of \<open>http://[\<close>
  has an opening bracket and no closing one, \<open>urlsplit\<close> raises \<open>ValueError\<close> for it,
  and the function, which has no exception handler, raises it too instead of returning
  false. This holds whatever the library makes of a bracketed host, since the check of
  the brackets comes first. (On an input without a square bracket the function returns
  true or false: \<open>is_valid_no_bracket\<close>.)
\<close>

theorem is_valid_wiki_url_raises:
  "is_valid_wiki_url chk ''http://['' = Inl ValueError"
  by (simp add: is_valid_wiki_url_def urlparse_def urlsplit_def split_netloc_checked_def
      splitnetloc_def has_scheme_def contains_def lstrip_c0_def strip_c0_def remove_unsafe_def
      c0_or_space_def TAB_def CR_def LF_def ascii_alpha_def lower_char_def scheme_chars_def
      netloc_char_def Let_def)

subsection \<open>Link extraction\<close>

text \<open>
  C5. The links that \<open>extract_wiki_links\<close> returns are not always distinct: the set
  \<open>seen\<close> holds the hrefs as written, and two different hrefs can resolve to one URL.
  Here \<open>/wiki/a\<close> and \<open>/wiki/./a\<close> both match the pattern, are different strings, and
  \<open>urljoin\<close> removes the dot segment of the second. (Of the other parts of the claim,
  \<open>extract_wiki_links_returns\<close> bounds the length by ten and \<open>extract_wiki_links_eq\<close>
  gives the order, for markup that the parser accepts; on markup that it rejects the
  function raises: \<open>extract_wiki_links_raises\<close>.)
\<close>

theorem extract_wiki_links_duplicate_links:
  "extract_wiki_links chk (\<lambda>html. Some [''/wiki/a'', ''/wiki/./a'']) html =
     Inr [''https://en.wikipedia.org/wiki/a'', ''https://en.wikipedia.org/wiki/a'']"
  by code_simp

text \<open>
  C10. An href is kept only if it starts with \<open>/wiki/\<close>, and such an href has no
  scheme; every link returned is the resolution of an href of the page that starts with
  \<open>/wiki/\<close>; dropping all other hrefs from the page changes nothing. The absolute URL
  \<open>https://en.wikipedia.org/wiki/X\<close> does not match the pattern and a page that links
  only to it yields no link, although \<open>is_valid_wiki_url\<close> accepts it.
\<close>

theorem extract_wiki_links_keeps_relative_only:
  "(WIKI_PATH_RE_match h \<longrightarrow> take 6 h = ''/wiki/'' \<and> \<not> has_scheme h) \<and>
   (\<forall>ls. extract_wiki_links chk sel html = Inr ls \<longrightarrow>
      (\<exists>hrefs. sel html = Some hrefs \<and>
         (\<forall>l \<in> set ls. \<exists>h \<in> set hrefs.
             take 6 h = ''/wiki/'' \<and> urljoin chk WIKI_BASE h = Inr l))) \<and>
   extract_wiki_links chk (\<lambda>p. map_option (filter (\<lambda>h. take 6 h = ''/wiki/'')) (sel p)) html =
     extract_wiki_links chk sel html \<and>
   \<not> WIKI_PATH_RE_match ''https://en.wikipedia.org/wiki/X'' \<and>
   is_valid_wiki_url chk ''https://en.wikipedia.org/wiki/X'' = Inr True \<and>
   extract_wiki_links chk (\<lambda>p. Some [''https://en.wikipedia.org/wiki/X'']) html = Inr []"
proof (intro conjI allI impI)
  assume m: "WIKI_PATH_RE_match h"
  then show "take 6 h = ''/wiki/''" by (simp add: WIKI_PATH_RE_match_iff)
  from match_no_colon [OF m] show "\<not> has_scheme h" by (simp add: has_scheme_def contains_iff)
next
  fix ls
  assume e: "extract_wiki_links chk sel html = Inr ls"
  then obtain hrefs where s: "sel html = Some hrefs"
    and l: "extract_loop chk hrefs [] {} = Inr ls"
    by (auto simp: extract_wiki_links_def split: option.splits)
  have "\<exists>h \<in> set hrefs. take 6 h = ''/wiki/'' \<and> urljoin chk WIKI_BASE h = Inr l"
    if "l \<in> set ls" for l
  proof -
    from l that obtain h where "h \<in> set hrefs" "WIKI_PATH_RE_match h"
      "urljoin chk WIKI_BASE h = Inr l"
      using extract_loop_sources [of chk hrefs "[]" "{}" ls l] by auto
    then show ?thesis by (auto simp: WIKI_PATH_RE_match_iff)
  qed
  with s show "\<exists>hrefs. sel html = Some hrefs \<and>
         (\<forall>l \<in> set ls. \<exists>h \<in> set hrefs.
             take 6 h = ''/wiki/'' \<and> urljoin chk WIKI_BASE h = Inr l)" by blast
next
  show "extract_wiki_links chk (\<lambda>p. map_option (filter (\<lambda>h. take 6 h = ''/wiki/'')) (sel p)) html =
     extract_wiki_links chk sel html"
  proof (cases "sel html")
    case None
    then show ?thesis by (simp add: extract_wiki_links_def)
  next
    case (Some hrefs)
    have "extract_loop chk (filter (\<lambda>h. take 6 h = ''/wiki/'') hrefs) [] {} =
          extract_loop chk hrefs [] {}"
      by (rule extract_loop_filter) (simp_all add: WIKI_PATH_RE_match_iff)
    with Some show ?thesis by (simp add: extract_wiki_links_def)
  qed
next
  show nm: "\<not> WIKI_PATH_RE_match ''https://en.wikipedia.org/wiki/X''"
    by (simp add: WIKI_PATH_RE_match_iff)
  then show "extract_wiki_links chk (\<lambda>p. Some [''https://en.wikipedia.org/wiki/X'']) html = Inr []"
    by (simp add: extract_wiki_links_def)
next
  show "is_valid_wiki_url chk ''https://en.wikipedia.org/wiki/X'' = Inr True"
    by (simp add: is_valid_wiki_url_def urlparse_def urlsplit_def split_netloc_checked_def
        splitnetloc_def has_scheme_def contains_def lstrip_c0_def strip_c0_def remove_unsafe_def
        c0_or_space_def TAB_def CR_def LF_def ascii_alpha_def lower_char_def scheme_chars_def
        netloc_char_def split_once_def uses_params_def endswith_def WIKI_PATH_RE_match_iff
        not_colon_hash_def Let_def)
qed

theorem extract_wiki_links_keeps_relative_only_witness:
  "WIKI_PATH_RE_match ''/wiki/Dog'' \<and> take 6 ''/wiki/Dog'' = ''/wiki/'' \<and>
   \<not> has_scheme ''/wiki/Dog'' \<and>
   extract_wiki_links (\<lambda>_. True) (example_select zoo) Cat = Inr [Dog, Lion] \<and>
   (\<exists>hrefs. example_select zoo Cat = Some hrefs \<and>
      (\<exists>h \<in> set hrefs. take 6 h = ''/wiki/'' \<and> urljoin (\<lambda>_. True) WIKI_BASE h = Inr Lion)) \<and>
   extract_wiki_links (\<lambda>_. True)
     (\<lambda>p. map_option (filter (\<lambda>h. take 6 h = ''/wiki/'')) (example_select zoo p)) Cat =
       Inr [Dog, Lion]"
proof -
  note th = extract_wiki_links_keeps_relative_only
    [of "''/wiki/Dog''" "\<lambda>_. True" "example_select zoo" Cat]
  have m: "WIKI_PATH_RE_match ''/wiki/Dog''" by code_simp
  have e: "extract_wiki_links (\<lambda>_. True) (example_select zoo) Cat = Inr [Dog, Lion]"
    by code_simp
  from th m have 1: "take 6 ''/wiki/Dog'' = ''/wiki/''" "\<not> has_scheme ''/wiki/Dog''" by blast+
  from th e have "\<exists>hrefs. example_select zoo Cat = Some hrefs \<and>
      (\<forall>l \<in> set [Dog, Lion]. \<exists>h \<in> set hrefs.
          take 6 h = ''/wiki/'' \<and> urljoin (\<lambda>_. True) WIKI_BASE h = Inr l)" by blast
  then have 2: "\<exists>hrefs. example_select zoo Cat = Some hrefs \<and>
      (\<exists>h \<in> set hrefs. take 6 h = ''/wiki/'' \<and> urljoin (\<lambda>_. True) WIKI_BASE h = Inr Lion)"
    by auto
  from th e have 3: "extract_wiki_links (\<lambda>_. True)
     (\<lambda>p. map_option (filter (\<lambda>h. take 6 h = ''/wiki/'')) (example_select zoo p)) Cat =
       Inr [Dog, Lion]"
    by simp
  from m e 1 2 3 show ?thesis by blast
qed

subsection \<open>Traversal\<close>

text \<open>
  C1. Whatever the fetcher, the parser, the seed and the depth, a list that \<open>crawl\<close>
  returns has no duplicates: its length is the size of its set of elements. For a depth
  that is not negative \<open>crawl\<close> ends, and it returns a list if the parser rejects no
  markup.
\<close>

theorem crawl_result_no_duplicates:
  "(\<forall>R. crawl chk fetch sel w seed depth = Some (Inr R) \<longrightarrow>
        distinct R \<and> length R = card (set R)) \<and>
   (0 \<le> depth \<longrightarrow>
      (\<exists>r. crawl chk fetch sel w seed depth = Some r) \<and>
      ((\<forall>html. sel html \<noteq> None) \<longrightarrow> (\<exists>R. crawl chk fetch sel w seed depth = Some (Inr R))))"
proof (intro conjI allI impI)
  fix R
  assume "crawl chk fetch sel w seed depth = Some (Inr R)"
  then obtain t where "crawl_run chk fetch sel w seed depth = Some (Inr t)" "R = all_links t"
    by (auto simp: crawl_eq)
  with crawl_run_final [of chk fetch sel w seed depth t]
  show "distinct R" by (simp add: crawl_inv_def)
  then show "length R = card (set R)" by (simp add: distinct_card)
next
  assume "0 \<le> depth"
  then obtain r where "crawl_run chk fetch sel w seed depth = Some r"
    using crawl_run_terminates [of depth chk fetch sel w seed] by blast
  then show "\<exists>r. crawl chk fetch sel w seed depth = Some r"
    by (cases r) (simp_all add: crawl_def)
next
  assume "0 \<le> depth" "\<forall>html. sel html \<noteq> None"
  then obtain t where "crawl_run chk fetch sel w seed depth = Some (Inr t)"
    using crawl_run_returns [of depth sel chk fetch w seed] by blast
  then show "\<exists>R. crawl chk fetch sel w seed depth = Some (Inr R)"
    by (simp add: crawl_def)
qed

theorem crawl_result_no_duplicates_witness:
  "crawl (\<lambda>_. True) (example_fetch zoo) (example_select zoo) () Cat 2 =
     Some (Inr [Cat, Dog, Lion, Wolf, Fox]) \<and>
   distinct [Cat, Dog, Lion, Wolf, Fox] \<and>
   length [Cat, Dog, Lion, Wolf, Fox] = card (set [Cat, Dog, Lion, Wolf, Fox])"
  using crawl_result_no_duplicates
    [of "\<lambda>_. True" "example_fetch zoo" "example_select zoo" "()" Cat 2] zoo_crawl
  by blast

text \<open>
  C2. The links entering the result and the queue are not always valid article URLs.
  The page of Cat has one anchor, with href \<open>/wiki/..\<close>. The href matches the pattern,
  \<open>urljoin\<close> resolves it to the root of the site, and \<open>crawl\<close> records that URL,
  which \<open>is_valid_wiki_url\<close> rejects. The seed is valid. (Where every matching href of
  every page is plain, all recorded URLs are valid: \<open>crawl_plain_valid\<close>.)
\<close>

theorem crawl_records_invalid_url:
  "is_valid_wiki_url (\<lambda>_. True) Cat = Inr True \<and>
   crawl (\<lambda>_. True) (example_fetch dotdot) (example_select dotdot) () Cat 1 =
     Some (Inr [Cat, ''https://en.wikipedia.org/'']) \<and>
   is_valid_wiki_url (\<lambda>_. True) ''https://en.wikipedia.org/'' = Inr False"
  by code_simp

text \<open>
  C6. For a depth that is not negative, \<open>crawl\<close> returns the traversal by levels: the
  seed, then the new links of the seed in the order of its page, then the new links of
  the pages of level 1, page by page in the order of that level, and so on down to the
  level \<open>depth\<close>. The level that \<open>crawl\<close> gives to a URL when it puts it on the queue is
  the number of its level in that traversal, so the levels never decrease along the
  result, and a new link of a page of level \<open>L\<close> is appended at level \<open>L + 1\<close>, before
  every link found from a page of level \<open>L + 1\<close>. Where the parser rejects the markup of
  a page, both end with its exception.
\<close>

theorem crawl_breadth_first_order:
  "0 \<le> depth \<Longrightarrow>
     crawl chk fetch sel w seed depth =
       Some (map_sum id concat (crawl_by_levels chk fetch sel w seed depth)) \<and>
     map_option (map_sum id enqueued) (crawl_run chk fetch sel w seed depth) =
       Some (map_sum id (with_levels 0) (crawl_by_levels chk fetch sel w seed depth)) \<and>
     (\<forall>t. crawl_run chk fetch sel w seed depth = Some (Inr t) \<longrightarrow>
        map fst (enqueued t) = all_links t \<and> sorted (map snd (enqueued t)))"
proof (intro conjI allI impI)
  assume d: "0 \<le> depth"
  then show "crawl chk fetch sel w seed depth =
       Some (map_sum id concat (crawl_by_levels chk fetch sel w seed depth))"
    by (rule crawl_by_levels_result)
  from d show "map_option (map_sum id enqueued) (crawl_run chk fetch sel w seed depth) =
       Some (map_sum id (with_levels 0) (crawl_by_levels chk fetch sel w seed depth))"
    by (rule crawl_run_by_levels)
next
  fix t
  assume "crawl_run chk fetch sel w seed depth = Some (Inr t)"
  from crawl_run_final [OF this] have inv: "crawl_inv depth t" by simp
  from inv show "map fst (enqueued t) = all_links t" by (simp add: crawl_inv_def)
  from inv show "sorted (map snd (enqueued t))" by (simp add: crawl_inv_def)
qed

theorem crawl_breadth_first_order_witness:
  "(0::int) \<le> 2 \<and>
   crawl_by_levels (\<lambda>_. True) (example_fetch zoo) (example_select zoo) () Cat 2 =
     Inr [[Cat], [Dog, Lion], [Wolf, Fox]] \<and>
   crawl (\<lambda>_. True) (example_fetch zoo) (example_select zoo) () Cat 2 =
     Some (Inr [Cat, Dog, Lion, Wolf, Fox]) \<and>
   map_option (map_sum id enqueued)
     (crawl_run (\<lambda>_. True) (example_fetch zoo) (example_select zoo) () Cat 2) =
     Some (Inr [(Cat, 0), (Dog, 1), (Lion, 1), (Wolf, 2), (Fox, 2)]) \<and>
   crawl_run (\<lambda>_. True) (example_fetch zoo) (example_select zoo) () Cat 2 =
     Some (Inr zoo_final) \<and>
   map fst (enqueued zoo_final) = all_links zoo_final \<and>
   sorted (map snd (enqueued zoo_final))"
proof -
  have l: "crawl_by_levels (\<lambda>_. True) (example_fetch zoo) (example_select zoo) () Cat 2 =
     Inr [[Cat], [Dog, Lion], [Wolf, Fox]]"
    by code_simp
  note th = crawl_breadth_first_order
    [of 2 "\<lambda>_. True" "example_fetch zoo" "example_select zoo" "()" Cat]
  from th have 1: "crawl (\<lambda>_. True) (example_fetch zoo) (example_select zoo) () Cat 2 =
     Some (Inr [Cat, Dog, Lion, Wolf, Fox])"
    unfolding l by simp
  from th have 2: "map_option (map_sum id enqueued)
     (crawl_run (\<lambda>_. True) (example_fetch zoo) (example_select zoo) () Cat 2) =
     Some (Inr [(Cat, 0), (Dog, 1), (Lion, 1), (Wolf, 2), (Fox, 2)])"
    unfolding l by simp
  from th zoo_run have 3: "map fst (enqueued zoo_final) = all_links zoo_final"
    "sorted (map snd (enqueued zoo_final))" by simp_all
  from l 1 2 3 zoo_run show ?thesis by simp
qed

text \<open>
  C7. When \<open>crawl\<close> returns, the entries passed to the fetcher are exactly the entries of
  the history whose level is not the depth. A URL whose level is the depth is never
  passed to the fetcher, and it is in the result. An iteration that dequeues an entry at
  the depth only removes it from the queue.
\<close>

theorem crawl_never_fetches_at_depth:
  "(\<forall>t. crawl_run chk fetch sel w seed depth = Some (Inr t) \<longrightarrow>
      fetched t = filter (\<lambda>e. snd e \<noteq> depth) (enqueued t) \<and>
      (\<forall>e \<in> set (enqueued t). snd e = depth \<longrightarrow>
         fst e \<notin> fst ` set (fetched t) \<and> fst e \<in> set (all_links t))) \<and>
   (\<forall>url rest. queue s = (url, depth) # rest \<longrightarrow>
      crawl_step chk fetch sel depth s = Inr (s\<lparr>queue := rest\<rparr>))"
proof (intro conjI allI impI ballI)
  fix t
  assume run: "crawl_run chk fetch sel w seed depth = Some (Inr t)"
  from crawl_run_final [OF run] have inv: "crawl_inv depth t" and q: "queue t = []" by simp_all
  from inv q show f: "fetched t = filter (\<lambda>e. snd e \<noteq> depth) (enqueued t)"
    unfolding crawl_inv_def by auto
  from inv have m: "map fst (enqueued t) = all_links t" and d: "distinct (all_links t)"
    unfolding crawl_inv_def by blast+
  fix e
  assume e: "e \<in> set (enqueued t)" and lv: "snd e = depth"
  show "fst e \<notin> fst ` set (fetched t)"
  proof
    assume "fst e \<in> fst ` set (fetched t)"
    then obtain e' where e': "e' \<in> set (fetched t)" "fst e' = fst e" by auto
    with f have "e' \<in> set (enqueued t)" "snd e' \<noteq> depth" by auto
    moreover from d m have "distinct (map fst (enqueued t))" by simp
    ultimately have "snd e' = snd e"
      using e e'(2) eq_key_imp_eq_value [of "enqueued t" "fst e" "snd e'" "snd e"]
      by (metis prod.collapse)
    with lv \<open>snd e' \<noteq> depth\<close> show False by simp
  qed
  from e m show "fst e \<in> set (all_links t)" by (metis image_eqI set_map)
next
  fix url rest
  assume "queue s = (url, depth) # rest"
  then show "crawl_step chk fetch sel depth s = Inr (s\<lparr>queue := rest\<rparr>)"
    by (rule crawl_step_skip)
qed

theorem crawl_never_fetches_at_depth_witness:
  "fetched zoo_final = [(Cat, 0), (Dog, 1), (Lion, 1)] \<and>
   (Wolf, 2) \<in> set (enqueued zoo_final) \<and>
   Wolf \<notin> fst ` set (fetched zoo_final) \<and> Wolf \<in> set (all_links zoo_final) \<and>
   crawl_step (\<lambda>_. True) (example_fetch zoo) (example_select zoo) 2
     (zoo_final\<lparr>queue := [(Wolf, 2), (Fox, 2)]\<rparr>) = Inr (zoo_final\<lparr>queue := [(Fox, 2)]\<rparr>)"
proof -
  note th = crawl_never_fetches_at_depth
    [of "\<lambda>_. True" "example_fetch zoo" "example_select zoo" "()" Cat 2
        "zoo_final\<lparr>queue := [(Wolf, 2), (Fox, 2)]\<rparr>"]
  have w: "(Wolf, 2) \<in> set (enqueued zoo_final)" by (simp add: zoo_final_def)
  from th zoo_run have
    "fetched zoo_final = filter (\<lambda>e. snd e \<noteq> 2) (enqueued zoo_final)"
    "\<forall>e \<in> set (enqueued zoo_final). snd e = 2 \<longrightarrow>
         fst e \<notin> fst ` set (fetched zoo_final) \<and> fst e \<in> set (all_links zoo_final)"
    by blast+
  moreover from th have "crawl_step (\<lambda>_. True) (example_fetch zoo) (example_select zoo) 2
     (zoo_final\<lparr>queue := [(Wolf, 2), (Fox, 2)]\<rparr>) = Inr (zoo_final\<lparr>queue := [(Fox, 2)]\<rparr>)"
    by simp
  moreover have "filter (\<lambda>e. snd e \<noteq> 2) (enqueued zoo_final) = [(Cat, 0), (Dog, 1), (Lion, 1)]"
    by (simp add: zoo_final_def)
  ultimately show ?thesis using w by fastforce
qed







end
